theory Spec2Isabelle
  imports Main
begin

section \<open>Values\<close>

text \<open>
  The JavaScript values that flow through \<open>src/MyPromise/index.js\<close>. A \<open>MyPromise\<close>
  instance is a reference \<open>Inst p\<close> into the heap of instances. A function value carries
  the script of its body (what it does with its first two arguments when it is called as a
  \<open>then\<close> method) and its own properties; a plain object carries its properties.
\<close>

datatype tkind = CallFirst | CallSecond | Raise

datatype jsval =
    Undefined
  | Null
  | Bool bool
  | Num int
  | Str string
  | Arr "jsval list"
  | Obj "(string \<times> jsval) list"
  | Fn "(tkind \<times> jsval) list" "(string \<times> jsval) list"
  | Inst nat

datatype jstype = TUndefined | TObject | TBoolean | TNumber | TString | TFunction

text \<open>The \<open>typeof\<close> operator.\<close>

fun typeof :: "jsval \<Rightarrow> jstype" where
  "typeof Undefined = TUndefined"
| "typeof Null = TObject"
| "typeof (Bool b) = TBoolean"
| "typeof (Num n) = TNumber"
| "typeof (Str s) = TString"
| "typeof (Arr xs) = TObject"
| "typeof (Obj ps) = TObject"
| "typeof (Fn body ps) = TFunction"
| "typeof (Inst p) = TObject"

text \<open>\<open>Boolean(object)\<close>: the falsy values are \<open>undefined\<close>, \<open>null\<close>, \<open>false\<close>, \<open>0\<close> and the empty string.\<close>

fun truthy :: "jsval \<Rightarrow> bool" where
  "truthy Undefined = False"
| "truthy Null = False"
| "truthy (Bool b) = b"
| "truthy (Num n) = (n \<noteq> 0)"
| "truthy (Str s) = (s \<noteq> [])"
| "truthy (Arr xs) = True"
| "truthy (Obj ps) = True"
| "truthy (Fn body ps) = True"
| "truthy (Inst p) = True"

text \<open>
  \<open>object.then\<close> for a value that property access does not fail on. Every instance of the
  class inherits the method \<open>then\<close>, which is a function; an array and a primitive have no
  such property.
\<close>

definition lookup :: "(string \<times> jsval) list \<Rightarrow> string \<Rightarrow> jsval" where
  "lookup ps k = (case map_of ps k of None \<Rightarrow> Undefined | Some v \<Rightarrow> v)"

fun then_is_function :: "jsval \<Rightarrow> bool" where
  "then_is_function (Obj ps) = (typeof (lookup ps ''then'') = TFunction)"
| "then_is_function (Fn body ps) = (typeof (lookup ps ''then'') = TFunction)"
| "then_is_function (Inst p) = True"
| "then_is_function v = False"

text \<open>
  \<open>isPromise\<close> (lines 240--242):
  \<open>Boolean(object) && typeof object === 'object' && typeof object.then === 'function'\<close>.
\<close>

definition isPromise :: "jsval \<Rightarrow> bool" where
  "isPromise object \<longleftrightarrow> truthy object \<and> typeof object = TObject \<and> then_is_function object"

text \<open>A call either returns a value or throws one.\<close>

datatype 'a completion = Return 'a | Throw jsval

section \<open>Instances, handlers and the world\<close>

datatype pstate = PENDING | FULFILLED | REJECTED

text \<open>
  An argument supplied by client code where a callback is expected: either a value that is
  not a function (\<open>undefined\<close> included; the class only ever asks for its \<open>typeof\<close>), or a
  function. A client function is modelled by what it returns or throws on its argument: it
  has no effect on the instances of the class.
\<close>

datatype ufun = NotAFunction | UserFn "jsval \<Rightarrow> jsval completion"

text \<open>
  The functions that are stored in handler records. Besides the client's arguments these
  are the closures the class itself creates: the bound \<open>_resolve\<close> and \<open>_reject\<close> of an
  instance (line 20), the two closures of \<open>finally\<close> (lines 55--61) that capture
  \<open>onfinally\<close>, the two closures of \<open>all\<close> (lines 190--200) that capture the shared
  variables of the call, the index, the length and the aggregate's \<open>resolve\<close>/\<open>reject\<close>,
  and the two closures of \<open>allSettled\<close> (lines 212--216).
\<close>

datatype callback =
    Arg ufun
  | ResolveOf nat
  | RejectOf nat
  | FinallyFulfilled ufun
  | FinallyRejected ufun
  | AllFulfilled nat nat nat nat
  | AllRejected nat
  | SettledFulfilled
  | SettledRejected

record handler =
  executor :: callback
  hstate :: pstate
  resolve :: callback
  reject :: callback

record promise =
  state :: pstate
  result :: jsval
  handlerQueue :: "handler list"

text \<open>The closure handed to \<open>executeMicroQueueTask\<close> (lines 124--144) captures \<open>this\<close> and the handler.\<close>

datatype task = Task nat handler

text \<open>The variables \<open>fulfilledLength\<close> and \<open>values\<close> shared by the closures of one call of \<open>all\<close>.\<close>

record allvars =
  fulfilledLength :: nat
  all_values :: "jsval list"

text \<open>
  The world: the heap of instances with the next free address, the host's queue of
  scheduled tasks, and the variables of the calls of \<open>all\<close> with the next free slot.
\<close>

record world =
  heap :: "nat \<Rightarrow> promise"
  nextId :: nat
  microQueue :: "task list"
  allVars :: "nat \<Rightarrow> allvars"
  nextVars :: nat

definition fresh_promise :: promise where
  "fresh_promise = \<lparr>state = PENDING, result = Undefined, handlerQueue = []\<rparr>"

definition init_world :: world where
  "init_world = \<lparr>heap = (\<lambda>_. fresh_promise), nextId = 0, microQueue = [],
     allVars = (\<lambda>_. \<lparr>fulfilledLength = 0, all_values = []\<rparr>), nextVars = 0\<rparr>"

section \<open>The state machine\<close>

text \<open>
  \<open>executeMicroQueueTask\<close> (lines 248--258) hands the callback to the host
  (\<open>process.nextTick\<close>, a \<open>MutationObserver\<close> or \<open>setTimeout\<close>); the host runs the
  callbacks later, first in first out.
\<close>

definition executeMicroQueueTask :: "task \<Rightarrow> world \<Rightarrow> world" where
  "executeMicroQueueTask callback w = w\<lparr>microQueue := microQueue w @ [callback]\<rparr>"

text \<open>\<open>_pushHandler\<close> (lines 102--104).\<close>

definition pushHandler :: "nat \<Rightarrow> callback \<Rightarrow> pstate \<Rightarrow> callback \<Rightarrow> callback \<Rightarrow> world \<Rightarrow> world" where
  "pushHandler this ex st res rej w =
     w\<lparr>heap := (heap w)(this := (heap w this)\<lparr>handlerQueue := handlerQueue (heap w this) @
         [\<lparr>executor = ex, hstate = st, resolve = res, reject = rej\<rparr>]\<rparr>)\<rparr>"

text \<open>\<open>_executeCurrentHandler\<close> (lines 122--145) only schedules the task.\<close>

definition executeCurrentHandler :: "nat \<Rightarrow> handler \<Rightarrow> world \<Rightarrow> world" where
  "executeCurrentHandler this h w = executeMicroQueueTask (Task this h) w"

text \<open>\<open>this._handlerQueue.shift()\<close>.\<close>

definition shiftQueue :: "nat \<Rightarrow> world \<Rightarrow> world" where
  "shiftQueue this w =
     w\<lparr>heap := (heap w)(this := (heap w this)\<lparr>handlerQueue := tl (handlerQueue (heap w this))\<rparr>)\<rparr>"

text \<open>The \<open>while\<close> loop of \<open>_executeHandlers\<close> (lines 113--116).\<close>

function executeHandlersLoop :: "nat \<Rightarrow> world \<Rightarrow> world" where
  "executeHandlersLoop this w =
     (case handlerQueue (heap w this) of
        [] \<Rightarrow> w
      | h # hs \<Rightarrow> executeHandlersLoop this (shiftQueue this (executeCurrentHandler this h w)))"
  by pat_completeness auto
termination
  by (relation "measure (\<lambda>(this, w). length (handlerQueue (heap w this)))")
     (auto simp: shiftQueue_def executeCurrentHandler_def executeMicroQueueTask_def)

declare executeHandlersLoop.simps [simp del]

text \<open>\<open>_executeHandlers\<close> (lines 109--117).\<close>

definition executeHandlers :: "nat \<Rightarrow> world \<Rightarrow> world" where
  "executeHandlers this w =
     (if state (heap w this) = PENDING then w else executeHandlersLoop this w)"

text \<open>\<open>_changeState\<close> (lines 69--77).\<close>

definition changeState :: "nat \<Rightarrow> pstate \<Rightarrow> jsval \<Rightarrow> world \<Rightarrow> world" where
  "changeState this st res w =
     (if state (heap w this) \<noteq> PENDING then w
      else executeHandlers this
             (w\<lparr>heap := (heap w)(this := (heap w this)\<lparr>state := st, result := res\<rparr>)\<rparr>))"

text \<open>\<open>_resolve\<close> (lines 83--85) and \<open>_reject\<close> (lines 91--93).\<close>

definition inst_resolve :: "nat \<Rightarrow> jsval \<Rightarrow> world \<Rightarrow> world" where
  "inst_resolve this v w = changeState this FULFILLED v w"

definition inst_reject :: "nat \<Rightarrow> jsval \<Rightarrow> world \<Rightarrow> world" where
  "inst_reject this reason w = changeState this REJECTED reason w"

section \<open>Calling the stored functions\<close>

text \<open>\<open>values[index] = value\<close>: an assignment past the end extends the array; the holes read as \<open>undefined\<close>.\<close>

definition assign_index :: "jsval list \<Rightarrow> nat \<Rightarrow> jsval \<Rightarrow> jsval list" where
  "assign_index xs i v =
     (if i < length xs then xs[i := v] else xs @ replicate (i - length xs) Undefined @ [v])"

text \<open>Calling a value that is not a function throws a \<open>TypeError\<close>.\<close>

definition TypeError :: jsval where
  "TypeError = Str ''TypeError''"

fun call_ufun :: "ufun \<Rightarrow> jsval \<Rightarrow> jsval completion" where
  "call_ufun NotAFunction v = Throw TypeError"
| "call_ufun (UserFn f) v = f v"

text \<open>
  \<open>typeof onfinally === 'function' && onfinally()\<close> (lines 56 and 59): \<open>onfinally\<close> is
  called with no argument, so it receives \<open>undefined\<close>; the value of the expression is
  dropped and only a throw of \<open>onfinally\<close> gets out.
\<close>

fun run_onfinally :: "ufun \<Rightarrow> jsval option" where
  "run_onfinally NotAFunction = None"
| "run_onfinally (UserFn f) = (case f Undefined of Return x \<Rightarrow> None | Throw e \<Rightarrow> Some e)"

text \<open>
  Calling a stored function with one argument. The closure of \<open>all\<close> for a fulfilled item
  (lines 190--197) is \<open>AllFulfilled vars index length agg\<close>, where \<open>agg\<close> is the aggregate
  whose \<open>resolve\<close> it captured.
\<close>

fun call_cb :: "callback \<Rightarrow> jsval \<Rightarrow> world \<Rightarrow> jsval completion \<times> world" where
  "call_cb (Arg f) v w = (call_ufun f v, w)"
| "call_cb (ResolveOf p) v w = (Return Undefined, inst_resolve p v w)"
| "call_cb (RejectOf p) v w = (Return Undefined, inst_reject p v w)"
| "call_cb (FinallyFulfilled onfinally) v w =
     (case run_onfinally onfinally of Some e \<Rightarrow> (Throw e, w) | None \<Rightarrow> (Return v, w))"
| "call_cb (FinallyRejected onfinally) v w =
     (case run_onfinally onfinally of Some e \<Rightarrow> (Throw e, w) | None \<Rightarrow> (Throw v, w))"
| "call_cb (AllFulfilled vars index len agg) v w =
     (let fl = fulfilledLength (allVars w vars) + 1;
          vs = assign_index (all_values (allVars w vars)) index v;
          w1 = w\<lparr>allVars := (allVars w)(vars := \<lparr>fulfilledLength = fl, all_values = vs\<rparr>)\<rparr>
      in if fl = len then (Return Undefined, inst_resolve agg (Arr vs) w1)
         else (Return Undefined, w1))"
| "call_cb (AllRejected agg) v w = (Return Undefined, inst_reject agg v w)"
| "call_cb SettledFulfilled v w =
     (Return (Obj [(''status'', Str ''fulfilled''), (''value'', v)]), w)"
| "call_cb SettledRejected v w =
     (Return (Obj [(''status'', Str ''rejected''), (''reason'', v)]), w)"

text \<open>\<open>typeof executor === 'function'\<close> for a stored function.\<close>

fun is_function :: "callback \<Rightarrow> bool" where
  "is_function (Arg NotAFunction) = False"
| "is_function c = True"

section \<open>The constructor and \<open>then\<close>\<close>

text \<open>
  The constructor (lines 11--24). An executor is given the new instance, whose bound
  \<open>_resolve\<close> and \<open>_reject\<close> are its two arguments, and the world; it returns or throws.
  The \<open>catch\<close> turns a throw into \<open>this._reject(error)\<close>, so the constructor itself has no
  throwing outcome: it always returns the new instance.
\<close>

definition new_MyPromise ::
  "(nat \<Rightarrow> world \<Rightarrow> jsval completion \<times> world) \<Rightarrow> world \<Rightarrow> nat \<times> world" where
  "new_MyPromise ex w =
     (let this = nextId w;
          w1 = w\<lparr>heap := (heap w)(this := fresh_promise), nextId := this + 1\<rparr>
      in case ex this w1 of
           (Return u, w2) \<Rightarrow> (this, w2)
         | (Throw error, w2) \<Rightarrow> (this, inst_reject this error w2))"

text \<open>\<open>then\<close> (lines 32--38), \<open>catch\<close> (lines 45--47) and \<open>finally\<close> (lines 54--62).\<close>

definition promise_then :: "nat \<Rightarrow> callback \<Rightarrow> callback \<Rightarrow> world \<Rightarrow> nat \<times> world" where
  "promise_then this onfulfilled onrejected w =
     new_MyPromise (\<lambda>d w1.
        (Return Undefined,
         executeHandlers this
           (pushHandler this onrejected REJECTED (ResolveOf d) (RejectOf d)
             (pushHandler this onfulfilled FULFILLED (ResolveOf d) (RejectOf d) w1)))) w"

definition promise_catch :: "nat \<Rightarrow> callback \<Rightarrow> world \<Rightarrow> nat \<times> world" where
  "promise_catch this onrejected w = promise_then this (Arg NotAFunction) onrejected w"

definition promise_finally :: "nat \<Rightarrow> ufun \<Rightarrow> world \<Rightarrow> nat \<times> world" where
  "promise_finally this onfinally w =
     promise_then this (FinallyFulfilled onfinally) (FinallyRejected onfinally) w"

text \<open>
  \<open>value.then(resolve, reject)\<close> for a value that passed \<open>isPromise\<close>: the method of the
  class for an instance, the script of the object's own \<open>then\<close> otherwise. A script step
  calls the first or the second argument with a value, or throws; a throw ends the call.
\<close>

fun run_body :: "(tkind \<times> jsval) list \<Rightarrow> callback \<Rightarrow> callback \<Rightarrow> world \<Rightarrow> jsval completion \<times> world" where
  "run_body [] a b w = (Return Undefined, w)"
| "run_body ((CallFirst, v) # rest) a b w =
     (case call_cb a v w of
        (Return u, w1) \<Rightarrow> run_body rest a b w1
      | (Throw e, w1) \<Rightarrow> (Throw e, w1))"
| "run_body ((CallSecond, v) # rest) a b w =
     (case call_cb b v w of
        (Return u, w1) \<Rightarrow> run_body rest a b w1
      | (Throw e, w1) \<Rightarrow> (Throw e, w1))"
| "run_body ((Raise, v) # rest) a b w = (Throw v, w)"

fun invoke_then :: "jsval \<Rightarrow> callback \<Rightarrow> callback \<Rightarrow> world \<Rightarrow> jsval completion \<times> world" where
  "invoke_then (Inst p) a b w = (case promise_then p a b w of (d, w1) \<Rightarrow> (Return (Inst d), w1))"
| "invoke_then (Obj ps) a b w =
     (case lookup ps ''then'' of
        Fn body qs \<Rightarrow> run_body body a b w
      | _ \<Rightarrow> (Throw TypeError, w))"
| "invoke_then v a b w = (Throw TypeError, w)"

section \<open>Running a scheduled task\<close>

text \<open>
  The body of the scheduled closure (lines 125--143). \<open>resolve\<close> and \<open>reject\<close> of a handler
  are bound \<open>_resolve\<close>/\<open>_reject\<close>, which return normally; the completion of the calls
  outside the \<open>try\<close> is dropped.
\<close>

definition run_task :: "task \<Rightarrow> world \<Rightarrow> world" where
  "run_task t w =
     (case t of Task this h \<Rightarrow>
        if hstate h \<noteq> state (heap w this) then w
        else if \<not> is_function (executor h) then
          (if state (heap w this) = FULFILLED
           then snd (call_cb (resolve h) (result (heap w this)) w)
           else snd (call_cb (reject h) (result (heap w this)) w))
        else
          (case call_cb (executor h) (result (heap w this)) w of
             (Throw error, w1) \<Rightarrow> snd (call_cb (reject h) error w1)
           | (Return r, w1) \<Rightarrow>
               if isPromise r then
                 (case invoke_then r (resolve h) (reject h) w1 of
                    (Throw error, w2) \<Rightarrow> snd (call_cb (reject h) error w2)
                  | (Return u, w2) \<Rightarrow> w2)
               else
                 (case call_cb (resolve h) r w1 of
                    (Throw error, w2) \<Rightarrow> snd (call_cb (reject h) error w2)
                  | (Return u, w2) \<Rightarrow> w2)))"

text \<open>The host runs the oldest scheduled task; \<open>ticks n\<close> runs \<open>n\<close> of them.\<close>

definition tick :: "world \<Rightarrow> world" where
  "tick w = (case microQueue w of [] \<Rightarrow> w | t # ts \<Rightarrow> run_task t (w\<lparr>microQueue := ts\<rparr>))"

fun ticks :: "nat \<Rightarrow> world \<Rightarrow> world" where
  "ticks 0 w = w"
| "ticks (Suc n) w = ticks n (tick w)"

section \<open>The static operations\<close>

text \<open>\<open>MyPromise.resolve\<close> (lines 152--160) and \<open>MyPromise.reject\<close> (lines 167--171).\<close>

definition static_resolve :: "jsval \<Rightarrow> world \<Rightarrow> nat \<times> world" where
  "static_resolve v w =
     new_MyPromise (\<lambda>this w1.
        if isPromise v then invoke_then v (ResolveOf this) (RejectOf this) w1
        else call_cb (ResolveOf this) v w1) w"

definition static_reject :: "jsval \<Rightarrow> world \<Rightarrow> nat \<times> world" where
  "static_reject reason w = new_MyPromise (\<lambda>this w1. call_cb (RejectOf this) reason w1) w"

text \<open>
  \<open>MyPromise.all\<close> (lines 178--203). \<open>resolve()\<close> passes \<open>undefined\<close>. The callback of
  \<open>forEach\<close> cannot throw, so the loop runs over every item.
\<close>

fun all_forEach :: "nat \<Rightarrow> nat \<Rightarrow> nat \<Rightarrow> jsval list \<Rightarrow> nat \<Rightarrow> world \<Rightarrow> world" where
  "all_forEach vars len agg [] index w = w"
| "all_forEach vars len agg (item # items) index w =
     (case static_resolve item w of (q, w1) \<Rightarrow>
        case promise_then q (AllFulfilled vars index len agg) (AllRejected agg) w1 of (d, w2) \<Rightarrow>
          all_forEach vars len agg items (index + 1) w2)"

definition promise_all :: "jsval list \<Rightarrow> world \<Rightarrow> nat \<times> world" where
  "promise_all promiseQueue w =
     (let len = length promiseQueue;
          vars = nextVars w;
          w0 = w\<lparr>allVars := (allVars w)(vars := \<lparr>fulfilledLength = 0, all_values = []\<rparr>),
                 nextVars := vars + 1\<rparr>
      in new_MyPromise (\<lambda>this w1.
           if len = 0 then call_cb (ResolveOf this) Undefined w1
           else (Return Undefined, all_forEach vars len this promiseQueue 0 w1)) w0)"

text \<open>\<open>MyPromise.allSettled\<close> (lines 210--219).\<close>

fun allSettled_map :: "jsval list \<Rightarrow> world \<Rightarrow> jsval list \<times> world" where
  "allSettled_map [] w = ([], w)"
| "allSettled_map (item # items) w =
     (case static_resolve item w of (q, w1) \<Rightarrow>
        case promise_then q SettledFulfilled SettledRejected w1 of (d, w2) \<Rightarrow>
          case allSettled_map items w2 of (ds, w3) \<Rightarrow> (Inst d # ds, w3))"

definition allSettled :: "jsval list \<Rightarrow> world \<Rightarrow> nat \<times> world" where
  "allSettled promiseQueue w =
     (case allSettled_map promiseQueue w of (newQueue, w1) \<Rightarrow> promise_all newQueue w1)"

text \<open>\<open>MyPromise.race\<close> (lines 226--232).\<close>

fun race_forEach :: "nat \<Rightarrow> jsval list \<Rightarrow> world \<Rightarrow> world" where
  "race_forEach agg [] w = w"
| "race_forEach agg (item # items) w =
     (case static_resolve item w of (q, w1) \<Rightarrow>
        case promise_then q (ResolveOf agg) (RejectOf agg) w1 of (d, w2) \<Rightarrow>
          race_forEach agg items w2)"

definition race :: "jsval list \<Rightarrow> world \<Rightarrow> nat \<times> world" where
  "race promiseQueue w =
     new_MyPromise (\<lambda>this w1. (Return Undefined, race_forEach this promiseQueue w1)) w"

section \<open>Client programs\<close>

text \<open>
  The body of an executor written by the client: it calls its own \<open>resolve\<close> and \<open>reject\<close>
  with values and may throw, which ends it. The client may also keep the two functions and
  call them later (\<open>CallResolve\<close>, \<open>CallReject\<close>): \<open>held\<close> lists the instances whose
  functions the client has, which are the ones made by its own \<open>new MyPromise\<close>. The
  client's callbacks are values of type \<open>ufun\<close>.
\<close>

datatype xstep = XResolve jsval | XReject jsval | XThrow jsval

fun run_executor :: "xstep list \<Rightarrow> nat \<Rightarrow> world \<Rightarrow> jsval completion \<times> world" where
  "run_executor [] this w = (Return Undefined, w)"
| "run_executor (XResolve v # rest) this w = run_executor rest this (snd (call_cb (ResolveOf this) v w))"
| "run_executor (XReject v # rest) this w = run_executor rest this (snd (call_cb (RejectOf this) v w))"
| "run_executor (XThrow e # rest) this w = (Throw e, w)"

datatype action =
    New "xstep list"
  | Then nat ufun ufun
  | Catch nat ufun
  | Finally nat ufun
  | StaticResolve jsval
  | StaticReject jsval
  | All "jsval list"
  | AllSettled "jsval list"
  | Race "jsval list"
  | CallResolve nat jsval
  | CallReject nat jsval
  | Tick

record client =
  cworld :: world
  held :: "nat list"

definition init_client :: client where
  "init_client = \<lparr>cworld = init_world, held = []\<rparr>"

text \<open>
  One step of a client program. A method is called on an instance that exists, and a kept
  \<open>resolve\<close>/\<open>reject\<close> is one the client holds; a step that names anything else cannot be
  written and changes nothing. \<open>Tick\<close> lets the host run one scheduled task.
\<close>

fun perform :: "action \<Rightarrow> client \<Rightarrow> client" where
  "perform (New ex) c =
     (case new_MyPromise (run_executor ex) (cworld c) of
        (p, w) \<Rightarrow> c\<lparr>cworld := w, held := p # held c\<rparr>)"
| "perform (Then q f g) c =
     (if q < nextId (cworld c) then c\<lparr>cworld := snd (promise_then q (Arg f) (Arg g) (cworld c))\<rparr> else c)"
| "perform (Catch q g) c =
     (if q < nextId (cworld c) then c\<lparr>cworld := snd (promise_catch q (Arg g) (cworld c))\<rparr> else c)"
| "perform (Finally q f) c =
     (if q < nextId (cworld c) then c\<lparr>cworld := snd (promise_finally q f (cworld c))\<rparr> else c)"
| "perform (StaticResolve v) c = c\<lparr>cworld := snd (static_resolve v (cworld c))\<rparr>"
| "perform (StaticReject v) c = c\<lparr>cworld := snd (static_reject v (cworld c))\<rparr>"
| "perform (All vs) c = c\<lparr>cworld := snd (promise_all vs (cworld c))\<rparr>"
| "perform (AllSettled vs) c = c\<lparr>cworld := snd (allSettled vs (cworld c))\<rparr>"
| "perform (Race vs) c = c\<lparr>cworld := snd (race vs (cworld c))\<rparr>"
| "perform (CallResolve q v) c =
     (if q \<in> set (held c) then c\<lparr>cworld := inst_resolve q v (cworld c)\<rparr> else c)"
| "perform (CallReject q v) c =
     (if q \<in> set (held c) then c\<lparr>cworld := inst_reject q v (cworld c)\<rparr> else c)"
| "perform Tick c = c\<lparr>cworld := tick (cworld c)\<rparr>"

fun run :: "action list \<Rightarrow> client \<Rightarrow> client" where
  "run [] c = c"
| "run (a # as) c = run as (perform a c)"

text \<open>
  A call of the \<open>resolve\<close> or of the \<open>reject\<close> function of one instance, and a sequence of
  such calls on the same instance.
\<close>

datatype settle_call = Complete jsval | Fail jsval

fun do_call :: "nat \<Rightarrow> settle_call \<Rightarrow> world \<Rightarrow> world" where
  "do_call p (Complete v) w = inst_resolve p v w"
| "do_call p (Fail r) w = inst_reject p r w"

fun do_calls :: "nat \<Rightarrow> settle_call list \<Rightarrow> world \<Rightarrow> world" where
  "do_calls p [] w = w"
| "do_calls p (c # cs) w = do_calls p cs (do_call p c w)"

fun call_state :: "settle_call \<Rightarrow> pstate" where
  "call_state (Complete v) = FULFILLED"
| "call_state (Fail r) = REJECTED"

fun call_value :: "settle_call \<Rightarrow> jsval" where
  "call_value (Complete v) = v"
| "call_value (Fail r) = r"

section \<open>Who can settle an instance\<close>

text \<open>
  The instances a stored function can settle when it is called: the bound \<open>_resolve\<close> and
  \<open>_reject\<close> settle their instance, the closures of \<open>all\<close> settle the aggregate. A
  client function, and the closures of \<open>finally\<close> and \<open>allSettled\<close>, settle nothing.
\<close>

fun cb_targets :: "callback \<Rightarrow> nat set" where
  "cb_targets (ResolveOf p) = {p}"
| "cb_targets (RejectOf p) = {p}"
| "cb_targets (AllFulfilled vars index len agg) = {agg}"
| "cb_targets (AllRejected agg) = {agg}"
| "cb_targets c = {}"

definition h_targets :: "handler \<Rightarrow> nat set" where
  "h_targets h = cb_targets (executor h) \<union> cb_targets (resolve h) \<union> cb_targets (reject h)"

fun task_targets :: "task \<Rightarrow> nat set" where
  "task_targets (Task p h) = h_targets h"

text \<open>
  \<open>heap_quiet d w\<close>: the instance \<open>d\<close> is pending and no handler queued on any instance
  can settle it. \<open>queue_quiet d ts\<close>: none of the tasks \<open>ts\<close> can settle it.
\<close>

definition heap_quiet :: "nat \<Rightarrow> world \<Rightarrow> bool" where
  "heap_quiet d w \<longleftrightarrow>
     state (heap w d) = PENDING \<and> (\<forall>q. \<forall>h \<in> set (handlerQueue (heap w q)). d \<notin> h_targets h)"

definition queue_quiet :: "nat \<Rightarrow> task list \<Rightarrow> bool" where
  "queue_quiet d ts \<longleftrightarrow> (\<forall>t \<in> set ts. d \<notin> task_targets t)"

text \<open>
  \<open>grows w w'\<close>: no address is given back, and an instance that exists and is settled in
  \<open>w\<close> has the same state and result in \<open>w'\<close>.
\<close>

definition grows :: "world \<Rightarrow> world \<Rightarrow> bool" where
  "grows w w' \<longleftrightarrow>
     nextId w \<le> nextId w' \<and>
     (\<forall>q. q < nextId w \<and> state (heap w q) \<noteq> PENDING \<longrightarrow>
        state (heap w' q) = state (heap w q) \<and> result (heap w' q) = result (heap w q))"

text \<open>
  \<open>shields d w w'\<close>: if \<open>d\<close> is quiet in \<open>w\<close> and is not one of the instances made between
  \<open>w\<close> and \<open>w'\<close>, it is quiet in \<open>w'\<close>, and the tasks scheduled in between are appended to
  the host's queue and cannot settle it.
\<close>

definition shields :: "nat \<Rightarrow> world \<Rightarrow> world \<Rightarrow> bool" where
  "shields d w w' \<longleftrightarrow>
     (heap_quiet d w \<and> (d < nextId w \<or> nextId w' \<le> d) \<longrightarrow>
        heap_quiet d w' \<and> (\<exists>new. microQueue w' = microQueue w @ new \<and> queue_quiet d new))"

text \<open>
  \<open>quiet d w\<close>: nothing in the world can settle the pending instance \<open>d\<close>.
  \<open>sealed d c\<close>: moreover the client does not hold its \<open>resolve\<close> or \<open>reject\<close>.
\<close>

definition quiet :: "nat \<Rightarrow> world \<Rightarrow> bool" where
  "quiet d w \<longleftrightarrow> heap_quiet d w \<and> queue_quiet d (microQueue w)"

definition sealed :: "nat \<Rightarrow> client \<Rightarrow> bool" where
  "sealed d c \<longleftrightarrow> quiet d (cworld c) \<and> d \<notin> set (held c)"

section \<open>The two handlers of a downstream instance\<close>

text \<open>
  \<open>then\<close> called on \<open>p\<close> with \<open>a\<close> and \<open>b\<close> makes the instance \<open>d\<close> and pushes the records
  \<open>then_record a FULFILLED d\<close> and \<open>then_record b REJECTED d\<close>. Once \<open>p\<close> has the state
  \<open>st\<close>, \<open>due_record a b d st\<close> is the one of the two that reacts to it and
  \<open>idle_record a b d st\<close> is the one that is skipped.
\<close>

definition then_record :: "callback \<Rightarrow> pstate \<Rightarrow> nat \<Rightarrow> handler" where
  "then_record c st d = \<lparr>executor = c, hstate = st, resolve = ResolveOf d, reject = RejectOf d\<rparr>"

definition due_record :: "callback \<Rightarrow> callback \<Rightarrow> nat \<Rightarrow> pstate \<Rightarrow> handler" where
  "due_record a b d st =
     (if st = FULFILLED then then_record a FULFILLED d else then_record b REJECTED d)"

definition idle_record :: "callback \<Rightarrow> callback \<Rightarrow> nat \<Rightarrow> pstate \<Rightarrow> handler" where
  "idle_record a b d st =
     (if st = FULFILLED then then_record b REJECTED d else then_record a FULFILLED d)"

text \<open>
  The stored functions whose call leaves the world as it is, with what they return or
  throw: the client's functions and the two closures of \<open>finally\<close>.
\<close>

fun pure_call :: "callback \<Rightarrow> jsval \<Rightarrow> jsval completion option" where
  "pure_call (Arg (UserFn f)) v = Some (f v)"
| "pure_call (FinallyFulfilled u) v =
     Some (case run_onfinally u of Some e \<Rightarrow> Throw e | None \<Rightarrow> Return v)"
| "pure_call (FinallyRejected u) v =
     Some (case run_onfinally u of Some e \<Rightarrow> Throw e | None \<Rightarrow> Throw v)"
| "pure_call c v = None"

text \<open>
  \<open>expected c st v\<close>: the state and result that the task of a record with continuation
  \<open>c\<close> gives the downstream instance when the source has state \<open>st\<close> and result \<open>v\<close>, where
  that is decided by the task alone: the source's own outcome when \<open>c\<close> is not a function,
  a rejection with what \<open>c\<close> throws, a fulfilment with what \<open>c\<close> returns when that is not
  promise-like.
\<close>

definition expected :: "callback \<Rightarrow> pstate \<Rightarrow> jsval \<Rightarrow> (pstate \<times> jsval) option" where
  "expected c st v =
     (if \<not> is_function c then Some (st, v)
      else case pure_call c v of
             None \<Rightarrow> None
           | Some (Throw e) \<Rightarrow> Some (REJECTED, e)
           | Some (Return x) \<Rightarrow> if isPromise x then None else Some (FULFILLED, x))"

text \<open>
  The three stages of the two records. \<open>waiting\<close>: the source is pending, the two records
  are in its queue, and nothing else in the world can settle \<open>d\<close>. \<open>scheduled\<close>: the
  source is settled, the record that is due is a task in the host's queue, and nothing
  else but the idle record mentions \<open>d\<close>. \<open>finished\<close>: the source is settled and \<open>d\<close>
  has the expected outcome, where there is one.
\<close>

definition waiting :: "nat \<Rightarrow> nat \<Rightarrow> callback \<Rightarrow> callback \<Rightarrow> world \<Rightarrow> bool" where
  "waiting d p a b w \<longleftrightarrow>
     state (heap w p) = PENDING \<and> state (heap w d) = PENDING \<and>
     (\<exists>hs1 hs2. handlerQueue (heap w p) =
                  hs1 @ then_record a FULFILLED d # then_record b REJECTED d # hs2 \<and>
                (\<forall>h \<in> set hs1 \<union> set hs2. d \<notin> h_targets h)) \<and>
     (\<forall>q. q \<noteq> p \<longrightarrow> (\<forall>h \<in> set (handlerQueue (heap w q)). d \<notin> h_targets h)) \<and>
     queue_quiet d (microQueue w)"

definition scheduled :: "nat \<Rightarrow> nat \<Rightarrow> callback \<Rightarrow> callback \<Rightarrow> world \<Rightarrow> bool" where
  "scheduled d p a b w \<longleftrightarrow>
     state (heap w p) \<noteq> PENDING \<and> heap_quiet d w \<and>
     (\<exists>ts1 ts2. microQueue w = ts1 @ Task p (due_record a b d (state (heap w p))) # ts2 \<and>
                (\<forall>t \<in> set ts1 \<union> set ts2.
                   d \<in> task_targets t \<longrightarrow> t = Task p (idle_record a b d (state (heap w p)))))"

definition finished :: "nat \<Rightarrow> nat \<Rightarrow> callback \<Rightarrow> callback \<Rightarrow> world \<Rightarrow> bool" where
  "finished d p a b w \<longleftrightarrow>
     state (heap w p) \<noteq> PENDING \<and>
     (\<forall>st r. expected (if state (heap w p) = FULFILLED then a else b)
               (state (heap w p)) (result (heap w p)) = Some (st, r) \<longrightarrow>
             state (heap w d) = st \<and> result (heap w d) = r)"

definition awaiting :: "nat \<Rightarrow> nat \<Rightarrow> callback \<Rightarrow> callback \<Rightarrow> world \<Rightarrow> bool" where
  "awaiting d p a b w \<longleftrightarrow>
     d < nextId w \<and> p < nextId w \<and> d \<noteq> p \<and> (waiting d p a b w \<or> scheduled d p a b w)"

definition tracked :: "nat \<Rightarrow> nat \<Rightarrow> callback \<Rightarrow> callback \<Rightarrow> world \<Rightarrow> bool" where
  "tracked d p a b w \<longleftrightarrow>
     d < nextId w \<and> p < nextId w \<and> d \<noteq> p \<and>
     (waiting d p a b w \<or> scheduled d p a b w \<or> finished d p a b w)"

section \<open>Closed forms of the state machine\<close>

lemma handlerQueue_update_same: "handlerQueue r = q \<Longrightarrow> r\<lparr>handlerQueue := q\<rparr> = r"
  by (cases r) simp

text \<open>The loop moves every queued handler, in order, to the host's queue and leaves the queue empty.\<close>

lemma executeHandlersLoop_eq:
  "executeHandlersLoop this w =
     w\<lparr>heap := (heap w)(this := (heap w this)\<lparr>handlerQueue := []\<rparr>),
       microQueue := microQueue w @ map (Task this) (handlerQueue (heap w this))\<rparr>"
proof (induction this w rule: executeHandlersLoop.induct)
  case (1 this w)
  show ?case
  proof (cases "handlerQueue (heap w this)")
    case Nil
    then show ?thesis
      by (subst executeHandlersLoop.simps) (simp add: handlerQueue_update_same)
  next
    case (Cons h hs)
    let ?w' = "shiftQueue this (executeCurrentHandler this h w)"
    have "executeHandlersLoop this w = executeHandlersLoop this ?w'"
      by (subst executeHandlersLoop.simps) (simp add: Cons)
    also have "\<dots> = ?w'\<lparr>heap := (heap ?w')(this := (heap ?w' this)\<lparr>handlerQueue := []\<rparr>),
                 microQueue := microQueue ?w' @ map (Task this) (handlerQueue (heap ?w' this))\<rparr>"
      by (rule "1.IH" [OF Cons])
    also have "\<dots> = w\<lparr>heap := (heap w)(this := (heap w this)\<lparr>handlerQueue := []\<rparr>),
                 microQueue := microQueue w @ map (Task this) (handlerQueue (heap w this))\<rparr>"
      by (simp add: shiftQueue_def executeCurrentHandler_def executeMicroQueueTask_def Cons)
    finally show ?thesis .
  qed
qed

lemma inst_resolve_eq:
  "inst_resolve p v w =
     (if state (heap w p) \<noteq> PENDING then w
      else w\<lparr>heap := (heap w)(p := (heap w p)\<lparr>state := FULFILLED, result := v, handlerQueue := []\<rparr>),
             microQueue := microQueue w @ map (Task p) (handlerQueue (heap w p))\<rparr>)"
  by (simp add: inst_resolve_def changeState_def executeHandlers_def executeHandlersLoop_eq)

lemma inst_reject_eq:
  "inst_reject p v w =
     (if state (heap w p) \<noteq> PENDING then w
      else w\<lparr>heap := (heap w)(p := (heap w p)\<lparr>state := REJECTED, result := v, handlerQueue := []\<rparr>),
             microQueue := microQueue w @ map (Task p) (handlerQueue (heap w p))\<rparr>)"
  by (simp add: inst_reject_def changeState_def executeHandlers_def executeHandlersLoop_eq)

lemma promise_then_eq:
  "promise_then p a b w =
     (nextId w,
      executeHandlers p
        (pushHandler p b REJECTED (ResolveOf (nextId w)) (RejectOf (nextId w))
          (pushHandler p a FULFILLED (ResolveOf (nextId w)) (RejectOf (nextId w))
            (w\<lparr>heap := (heap w)(nextId w := fresh_promise), nextId := nextId w + 1\<rparr>))))"
  by (simp add: promise_then_def new_MyPromise_def Let_def)

lemma promise_all_empty:
  "promise_all [] w =
     (nextId w,
      w\<lparr>allVars := (allVars w)(nextVars w := \<lparr>fulfilledLength = 0, all_values = []\<rparr>),
        nextVars := nextVars w + 1,
        heap := (heap w)(nextId w := \<lparr>state = FULFILLED, result = Undefined, handlerQueue = []\<rparr>),
        nextId := nextId w + 1\<rparr>)"
  by (simp add: promise_all_def new_MyPromise_def Let_def inst_resolve_eq fresh_promise_def)

lemma race_empty:
  "race [] w = (nextId w, w\<lparr>heap := (heap w)(nextId w := fresh_promise), nextId := nextId w + 1\<rparr>)"
  by (simp add: race_def new_MyPromise_def Let_def)

section \<open>What a step can change\<close>

lemma executeHandlers_eq:
  "executeHandlers this w =
     (if state (heap w this) = PENDING then w
      else w\<lparr>heap := (heap w)(this := (heap w this)\<lparr>handlerQueue := []\<rparr>),
             microQueue := microQueue w @ map (Task this) (handlerQueue (heap w this))\<rparr>)"
  by (simp add: executeHandlers_def executeHandlersLoop_eq)

lemma grows_refl [simp]: "grows w w"
  by (simp add: grows_def)

lemma grows_trans: "grows w w1 \<Longrightarrow> grows w1 w2 \<Longrightarrow> grows w w2"
  unfolding grows_def
  by (metis le_trans less_le_trans)

lemma shields_refl [simp]: "shields d w w"
  by (simp add: shields_def queue_quiet_def)

lemma shields_trans:
  assumes "grows w w1" "grows w1 w2" "shields d w w1" "shields d w1 w2"
  shows "shields d w w2"
  unfolding shields_def
proof (intro impI)
  assume a: "heap_quiet d w \<and> (d < nextId w \<or> nextId w2 \<le> d)"
  have n: "nextId w \<le> nextId w1" "nextId w1 \<le> nextId w2"
    using assms(1,2) by (simp_all add: grows_def)
  from a n have "d < nextId w \<or> nextId w1 \<le> d" by auto
  with a assms(3) obtain new1 where
    1: "heap_quiet d w1" "microQueue w1 = microQueue w @ new1" "queue_quiet d new1"
    by (auto simp: shields_def)
  from a n have "d < nextId w1 \<or> nextId w2 \<le> d" by auto
  with 1 assms(4) obtain new2 where
    2: "heap_quiet d w2" "microQueue w2 = microQueue w1 @ new2" "queue_quiet d new2"
    by (auto simp: shields_def)
  have "microQueue w2 = microQueue w @ (new1 @ new2)" "queue_quiet d (new1 @ new2)"
    using 1 2 by (auto simp: queue_quiet_def)
  with 2 show "heap_quiet d w2 \<and> (\<exists>new. microQueue w2 = microQueue w @ new \<and> queue_quiet d new)"
    by blast
qed

lemma pushHandler_grows: "grows w (pushHandler q ex st res rej w)"
  by (simp add: grows_def pushHandler_def)

lemma pushHandler_shields:
  "d \<notin> cb_targets ex \<Longrightarrow> d \<notin> cb_targets res \<Longrightarrow> d \<notin> cb_targets rej \<Longrightarrow>
   shields d w (pushHandler q ex st res rej w)"
  by (auto simp: shields_def pushHandler_def heap_quiet_def h_targets_def queue_quiet_def)

lemma executeHandlers_grows: "grows w (executeHandlers q w)"
  by (simp add: grows_def executeHandlers_eq)

lemma executeHandlers_shields: "shields d w (executeHandlers q w)"
  by (auto simp: shields_def executeHandlers_eq heap_quiet_def queue_quiet_def)

lemma inst_resolve_grows: "grows w (inst_resolve q v w)"
  by (simp add: grows_def inst_resolve_eq)

lemma inst_reject_grows: "grows w (inst_reject q v w)"
  by (simp add: grows_def inst_reject_eq)

lemma inst_resolve_shields: "d \<noteq> q \<Longrightarrow> shields d w (inst_resolve q v w)"
  by (auto simp: shields_def inst_resolve_eq heap_quiet_def queue_quiet_def)

lemma inst_reject_shields: "d \<noteq> q \<Longrightarrow> shields d w (inst_reject q v w)"
  by (auto simp: shields_def inst_reject_eq heap_quiet_def queue_quiet_def)

lemma call_cb_grows: "grows w (snd (call_cb c v w))"
  by (cases c)
     (auto simp: grows_def inst_resolve_eq inst_reject_eq Let_def split: option.splits)

lemma call_cb_shields: "d \<notin> cb_targets c \<Longrightarrow> shields d w (snd (call_cb c v w))"
  by (cases c)
     (auto simp: shields_def heap_quiet_def queue_quiet_def inst_resolve_eq inst_reject_eq Let_def
           split: option.splits)

lemma run_body_grows: "grows w (snd (run_body body a b w))"
proof (induction body a b w rule: run_body.induct)
  case (2 v rest a b w)
  show ?case
  proof (cases "call_cb a v w")
    case (Pair r w1)
    have g: "grows w w1" using call_cb_grows [of w a v] Pair by simp
    show ?thesis
      using 2 Pair g by (cases r) (auto intro: grows_trans)
  qed
next
  case (3 v rest a b w)
  show ?case
  proof (cases "call_cb b v w")
    case (Pair r w1)
    have g: "grows w w1" using call_cb_grows [of w b v] Pair by simp
    show ?thesis
      using 3 Pair g by (cases r) (auto intro: grows_trans)
  qed
qed simp_all

lemma run_body_shields:
  "d \<notin> cb_targets a \<Longrightarrow> d \<notin> cb_targets b \<Longrightarrow> shields d w (snd (run_body body a b w))"
proof (induction body a b w rule: run_body.induct)
  case (2 v rest a b w)
  show ?case
  proof (cases "call_cb a v w")
    case (Pair r w1)
    have g: "grows w w1" "shields d w w1"
      using call_cb_grows [of w a v] call_cb_shields [of d a w v] Pair 2 by simp_all
    show ?thesis
    proof (cases r)
      case (Return u)
      then show ?thesis
        using 2 Pair g run_body_grows [of w1 rest a b] by (auto intro: shields_trans)
    next
      case (Throw e)
      then show ?thesis using Pair g by simp
    qed
  qed
next
  case (3 v rest a b w)
  show ?case
  proof (cases "call_cb b v w")
    case (Pair r w1)
    have g: "grows w w1" "shields d w w1"
      using call_cb_grows [of w b v] call_cb_shields [of d b w v] Pair 3 by simp_all
    show ?thesis
    proof (cases r)
      case (Return u)
      then show ?thesis
        using 3 Pair g run_body_grows [of w1 rest a b] by (auto intro: shields_trans)
    next
      case (Throw e)
      then show ?thesis using Pair g by simp
    qed
  qed
qed simp_all

text \<open>The constructor.\<close>

lemma alloc_grows:
  "grows w (w\<lparr>heap := (heap w)(nextId w := fresh_promise), nextId := nextId w + 1\<rparr>)"
  by (simp add: grows_def)

lemma alloc_shields:
  "shields d w (w\<lparr>heap := (heap w)(nextId w := fresh_promise), nextId := nextId w + 1\<rparr>)"
  by (auto simp: shields_def heap_quiet_def queue_quiet_def fresh_promise_def)

lemma new_MyPromise_fst [simp]: "fst (new_MyPromise ex w) = nextId w"
  by (simp add: new_MyPromise_def Let_def split: prod.splits completion.splits)

lemma new_MyPromise_grows:
  assumes "\<And>w1. grows w1 (snd (ex (nextId w) w1))"
  shows "grows w (snd (new_MyPromise ex w))"
proof -
  let ?w1 = "w\<lparr>heap := (heap w)(nextId w := fresh_promise), nextId := nextId w + 1\<rparr>"
  obtain r w2 where ex: "ex (nextId w) ?w1 = (r, w2)" by (cases "ex (nextId w) ?w1")
  have g: "grows w w2"
    using grows_trans [OF alloc_grows assms [of ?w1]] ex by simp
  show ?thesis
    using ex g grows_trans [OF g inst_reject_grows]
    by (cases r) (simp_all add: new_MyPromise_def Let_def)
qed

lemma new_MyPromise_nextId: 
  assumes "\<And>w1. grows w1 (snd (ex (nextId w) w1))"
  shows "nextId w < nextId (snd (new_MyPromise ex w))"
proof -
  let ?w1 = "w\<lparr>heap := (heap w)(nextId w := fresh_promise), nextId := nextId w + 1\<rparr>"
  obtain r w2 where ex: "ex (nextId w) ?w1 = (r, w2)" by (cases "ex (nextId w) ?w1")
  have g: "nextId ?w1 \<le> nextId w2"
    using assms [of ?w1] ex by (simp add: grows_def)
  show ?thesis
    using ex g
    by (cases r) (simp_all add: new_MyPromise_def Let_def inst_reject_eq)
qed

lemma new_MyPromise_shields:
  assumes gr: "\<And>w1. grows w1 (snd (ex (nextId w) w1))"
      and sh: "\<And>w1. d \<noteq> nextId w \<Longrightarrow> shields d w1 (snd (ex (nextId w) w1))"
  shows "shields d w (snd (new_MyPromise ex w))"
proof (cases "d = nextId w")
  case True
  then show ?thesis
    using new_MyPromise_nextId [of ex w, OF gr] by (simp add: shields_def)
next
  case False
  let ?w1 = "w\<lparr>heap := (heap w)(nextId w := fresh_promise), nextId := nextId w + 1\<rparr>"
  obtain r w2 where ex: "ex (nextId w) ?w1 = (r, w2)" by (cases "ex (nextId w) ?w1")
  have g1: "grows ?w1 w2" using gr [of ?w1] ex by simp
  have s1: "shields d ?w1 w2" using sh [OF False, of ?w1] ex by simp
  have s: "shields d w w2"
    by (rule shields_trans [OF alloc_grows g1 alloc_shields s1])
  have g: "grows w w2" by (rule grows_trans [OF alloc_grows g1])
  show ?thesis
  proof (cases r)
    case (Return u)
    then show ?thesis using ex s by (simp add: new_MyPromise_def Let_def)
  next
    case (Throw e)
    have "shields d w (inst_reject (nextId w) e w2)"
      by (rule shields_trans [OF g inst_reject_grows s inst_reject_shields [OF False]])
    then show ?thesis using ex Throw by (simp add: new_MyPromise_def Let_def)
  qed
qed


lemma then_body_grows:
  "grows w1 (executeHandlers p (pushHandler p b sb rb jb (pushHandler p a sa ra ja w1)))"
  by (rule grows_trans [OF grows_trans [OF pushHandler_grows pushHandler_grows] executeHandlers_grows])

lemma then_body_shields:
  assumes "d \<notin> cb_targets a" "d \<notin> cb_targets ra" "d \<notin> cb_targets ja"
          "d \<notin> cb_targets b" "d \<notin> cb_targets rb" "d \<notin> cb_targets jb"
  shows "shields d w1 (executeHandlers p (pushHandler p b sb rb jb (pushHandler p a sa ra ja w1)))"
proof -
  let ?w2 = "pushHandler p a sa ra ja w1"
  let ?w3 = "pushHandler p b sb rb jb ?w2"
  have "shields d w1 ?w3"
    by (rule shields_trans [OF pushHandler_grows pushHandler_grows
          pushHandler_shields [OF assms(1-3)] pushHandler_shields [OF assms(4-6)]])
  then show ?thesis
    by (rule shields_trans [OF grows_trans [OF pushHandler_grows pushHandler_grows]
          executeHandlers_grows _ executeHandlers_shields])
qed

lemma promise_then_fst [simp]: "fst (promise_then p a b w) = nextId w"
  by (simp add: promise_then_def)

lemma promise_then_grows: "grows w (snd (promise_then p a b w))"
  unfolding promise_then_def
  by (rule new_MyPromise_grows) (simp add: then_body_grows)

lemma promise_then_shields:
  "d \<notin> cb_targets a \<Longrightarrow> d \<notin> cb_targets b \<Longrightarrow> shields d w (snd (promise_then p a b w))"
  unfolding promise_then_def
  by (rule new_MyPromise_shields) (simp_all add: then_body_grows then_body_shields)

lemma invoke_then_grows: "grows w (snd (invoke_then v a b w))"
proof (cases v)
  case (Inst p)
  then show ?thesis
    using promise_then_grows [of w p a b] by (auto split: prod.splits)
next
  case (Obj ps)
  then show ?thesis
    by (cases "lookup ps ''then''") (simp_all add: run_body_grows)
qed simp_all

lemma invoke_then_shields:
  assumes "d \<notin> cb_targets a" "d \<notin> cb_targets b"
  shows "shields d w (snd (invoke_then v a b w))"
proof (cases v)
  case (Inst p)
  then show ?thesis
    using promise_then_shields [OF assms, of w p] by (auto split: prod.splits)
next
  case (Obj ps)
  then show ?thesis
    by (cases "lookup ps ''then''") (simp_all add: run_body_shields [OF assms])
qed simp_all

text \<open>A step that may be followed by \<open>reject(error)\<close> in a \<open>catch\<close>.\<close>

lemma caught_grows:
  assumes "grows w (snd rw)"
  shows "grows w (case rw of (Throw error, w2) \<Rightarrow> snd (call_cb c error w2) | (Return u, w2) \<Rightarrow> w2)"
proof (cases rw)
  case (Pair r w2)
  then show ?thesis
    using assms grows_trans [OF _ call_cb_grows, of w w2] by (cases r) simp_all
qed

lemma caught_shields:
  assumes "grows w (snd rw)" "shields d w (snd rw)" "d \<notin> cb_targets c"
  shows "shields d w (case rw of (Throw error, w2) \<Rightarrow> snd (call_cb c error w2) | (Return u, w2) \<Rightarrow> w2)"
proof (cases rw)
  case (Pair r w2)
  then show ?thesis
    using assms shields_trans [OF _ call_cb_grows _ call_cb_shields, of w w2 d c]
    by (cases r) simp_all
qed

lemma run_task_grows: "grows w (run_task t w)"
proof (cases t)
  case (Task this h)
  show ?thesis
  proof (cases "call_cb (executor h) (result (heap w this)) w")
    case (Pair r w1)
    have g1: "grows w w1" using call_cb_grows [of w "executor h" "result (heap w this)"] Pair by simp
    show ?thesis
    proof (cases r)
      case (Return x)
      have a: "grows w (case invoke_then x (resolve h) (reject h) w1 of
                 (Throw error, w2) \<Rightarrow> snd (call_cb (reject h) error w2) | (Return u, w2) \<Rightarrow> w2)"
        by (rule caught_grows) (rule grows_trans [OF g1 invoke_then_grows])
      have b: "grows w (case call_cb (resolve h) x w1 of
                 (Throw error, w2) \<Rightarrow> snd (call_cb (reject h) error w2) | (Return u, w2) \<Rightarrow> w2)"
        by (rule caught_grows) (rule grows_trans [OF g1 call_cb_grows])
      show ?thesis
        using Task Pair Return a b by (simp add: run_task_def call_cb_grows)
    next
      case (Throw e)
      then show ?thesis
        using Task Pair grows_trans [OF g1 call_cb_grows]
        by (simp add: run_task_def call_cb_grows)
    qed
  qed
qed

lemma run_task_shields:
  assumes "d \<notin> task_targets t"
  shows "shields d w (run_task t w)"
proof (cases t)
  case (Task this h)
  with assms have nt: "d \<notin> cb_targets (executor h)" "d \<notin> cb_targets (resolve h)"
      "d \<notin> cb_targets (reject h)"
    by (simp_all add: h_targets_def)
  show ?thesis
  proof (cases "call_cb (executor h) (result (heap w this)) w")
    case (Pair r w1)
    have g1: "grows w w1" using call_cb_grows [of w "executor h" "result (heap w this)"] Pair by simp
    have s1: "shields d w w1" using call_cb_shields [OF nt(1), of w "result (heap w this)"] Pair by simp
    show ?thesis
    proof (cases r)
      case (Return x)
      have a: "shields d w (case invoke_then x (resolve h) (reject h) w1 of
                 (Throw error, w2) \<Rightarrow> snd (call_cb (reject h) error w2) | (Return u, w2) \<Rightarrow> w2)"
        by (rule caught_shields [OF grows_trans [OF g1 invoke_then_grows]
              shields_trans [OF g1 invoke_then_grows s1 invoke_then_shields [OF nt(2,3)]] nt(3)])
      have b: "shields d w (case call_cb (resolve h) x w1 of
                 (Throw error, w2) \<Rightarrow> snd (call_cb (reject h) error w2) | (Return u, w2) \<Rightarrow> w2)"
        by (rule caught_shields [OF grows_trans [OF g1 call_cb_grows]
              shields_trans [OF g1 call_cb_grows s1 call_cb_shields [OF nt(2)]] nt(3)])
      show ?thesis
        using Task Pair Return a b nt by (simp add: run_task_def call_cb_shields)
    next
      case (Throw e)
      then show ?thesis
        using Task Pair nt shields_trans [OF g1 call_cb_grows s1 call_cb_shields [OF nt(3)]]
        by (simp add: run_task_def call_cb_shields)
    qed
  qed
qed

lemma static_resolve_fst [simp]: "fst (static_resolve v w) = nextId w"
  by (simp add: static_resolve_def)

lemma static_resolve_grows: "grows w (snd (static_resolve v w))"
  unfolding static_resolve_def
  by (rule new_MyPromise_grows) (simp add: invoke_then_grows inst_resolve_grows)

lemma static_resolve_shields: "shields d w (snd (static_resolve v w))"
  unfolding static_resolve_def
  by (rule new_MyPromise_shields)
     (simp_all add: invoke_then_grows inst_resolve_grows invoke_then_shields inst_resolve_shields)

lemma static_reject_grows: "grows w (snd (static_reject v w))"
  unfolding static_reject_def
  by (rule new_MyPromise_grows) (simp add: inst_reject_grows)

lemma static_reject_shields: "shields d w (snd (static_reject v w))"
  unfolding static_reject_def
  by (rule new_MyPromise_shields) (simp_all add: inst_reject_grows inst_reject_shields)

text \<open>One round of a \<open>forEach\<close>: wrap the item, attach two functions.\<close>

lemma wrap_then_grows:
  "grows w (snd (promise_then (fst (static_resolve item w)) a b (snd (static_resolve item w))))"
  by (rule grows_trans [OF static_resolve_grows promise_then_grows])

lemma wrap_then_shields:
  assumes "d \<notin> cb_targets a" "d \<notin> cb_targets b"
  shows "shields d w (snd (promise_then (fst (static_resolve item w)) a b (snd (static_resolve item w))))"
  by (rule shields_trans [OF static_resolve_grows promise_then_grows static_resolve_shields
        promise_then_shields [OF assms]])

lemma race_forEach_grows: "grows w (race_forEach agg items w)"
proof (induction items arbitrary: w)
  case (Cons item items)
  show ?case
    using grows_trans [OF wrap_then_grows Cons [of "snd (promise_then (fst (static_resolve item w))
            (ResolveOf agg) (RejectOf agg) (snd (static_resolve item w)))"]]
    by (simp add: case_prod_beta)
qed simp

lemma race_forEach_shields: "d \<noteq> agg \<Longrightarrow> shields d w (race_forEach agg items w)"
proof (induction items arbitrary: w)
  case (Cons item items)
  let ?w2 = "snd (promise_then (fst (static_resolve item w))
            (ResolveOf agg) (RejectOf agg) (snd (static_resolve item w)))"
  have "shields d w (race_forEach agg items ?w2)"
    using Cons.prems
    by (intro shields_trans [OF wrap_then_grows race_forEach_grows wrap_then_shields Cons.IH]) simp_all
  then show ?case
    by (simp add: case_prod_beta)
qed simp

lemma race_grows: "grows w (snd (race items w))"
  unfolding race_def
  by (rule new_MyPromise_grows) (simp add: race_forEach_grows)

lemma race_shields: "shields d w (snd (race items w))"
  unfolding race_def
  by (rule new_MyPromise_shields) (simp_all add: race_forEach_grows race_forEach_shields)

lemma all_forEach_grows: "grows w (all_forEach vars len agg items index w)"
proof (induction items arbitrary: w index)
  case (Cons item items)
  show ?case
    using grows_trans [OF wrap_then_grows Cons [of "snd (promise_then (fst (static_resolve item w))
            (AllFulfilled vars index len agg) (AllRejected agg) (snd (static_resolve item w)))" "index + 1"]]
    by (simp add: case_prod_beta)
qed simp

lemma all_forEach_shields:
  "d \<noteq> agg \<Longrightarrow> shields d w (all_forEach vars len agg items index w)"
proof (induction items arbitrary: w index)
  case (Cons item items)
  let ?w2 = "snd (promise_then (fst (static_resolve item w))
            (AllFulfilled vars index len agg) (AllRejected agg) (snd (static_resolve item w)))"
  have "shields d w (all_forEach vars len agg items (index + 1) ?w2)"
    using Cons.prems
    by (intro shields_trans [OF wrap_then_grows all_forEach_grows wrap_then_shields Cons.IH]) simp_all
  then show ?case
    by (simp add: case_prod_beta)
qed simp

lemma vars_grows:
  "grows w (w\<lparr>allVars := av, nextVars := nv\<rparr>)"
  by (simp add: grows_def)

lemma vars_shields:
  "shields d w (w\<lparr>allVars := av, nextVars := nv\<rparr>)"
  by (simp add: shields_def heap_quiet_def queue_quiet_def)

lemma promise_all_fst [simp]: "fst (promise_all items w) = nextId w"
  by (simp add: promise_all_def Let_def)

lemma promise_all_grows: "grows w (snd (promise_all items w))"
  unfolding promise_all_def Let_def
  by (rule grows_trans [OF vars_grows new_MyPromise_grows])
     (simp add: all_forEach_grows inst_resolve_grows)

lemma promise_all_shields: "shields d w (snd (promise_all items w))"
  unfolding promise_all_def Let_def
  apply (rule shields_trans [OF vars_grows new_MyPromise_grows vars_shields new_MyPromise_shields])
    apply (simp_all add: all_forEach_grows inst_resolve_grows all_forEach_shields inst_resolve_shields)
  done

lemma allSettled_map_grows: "grows w (snd (allSettled_map items w))"
proof (induction items arbitrary: w)
  case (Cons item items)
  show ?case
    using grows_trans [OF wrap_then_grows Cons [of "snd (promise_then (fst (static_resolve item w))
            SettledFulfilled SettledRejected (snd (static_resolve item w)))"]]
    by (simp add: case_prod_beta)
qed simp

lemma allSettled_map_shields: "shields d w (snd (allSettled_map items w))"
proof (induction items arbitrary: w)
  case (Cons item items)
  let ?w2 = "snd (promise_then (fst (static_resolve item w))
            SettledFulfilled SettledRejected (snd (static_resolve item w)))"
  have "shields d w (snd (allSettled_map items ?w2))"
    by (intro shields_trans [OF wrap_then_grows allSettled_map_grows wrap_then_shields Cons.IH]) simp_all
  then show ?case
    by (simp add: case_prod_beta)
qed simp

lemma allSettled_grows: "grows w (snd (allSettled items w))"
  using grows_trans [OF allSettled_map_grows promise_all_grows]
  by (simp add: allSettled_def case_prod_beta)

lemma allSettled_shields: "shields d w (snd (allSettled items w))"
  using shields_trans [OF allSettled_map_grows promise_all_grows allSettled_map_shields promise_all_shields]
  by (simp add: allSettled_def case_prod_beta)

lemma run_executor_grows: "grows w (snd (run_executor ex this w))"
proof (induction ex this w rule: run_executor.induct)
  case (2 v rest this w)
  then show ?case using grows_trans [OF inst_resolve_grows] by simp
next
  case (3 v rest this w)
  then show ?case using grows_trans [OF inst_reject_grows] by simp
qed simp_all

lemma run_executor_shields: "d \<noteq> this \<Longrightarrow> shields d w (snd (run_executor ex this w))"
proof (induction ex this w rule: run_executor.induct)
  case (2 v rest this w)
  then show ?case
    using shields_trans [OF inst_resolve_grows run_executor_grows inst_resolve_shields] by simp
next
  case (3 v rest this w)
  then show ?case
    using shields_trans [OF inst_reject_grows run_executor_grows inst_reject_shields] by simp
qed simp_all

section \<open>Settlement\<close>

lemma do_call_settled: "state (heap w p) \<noteq> PENDING \<Longrightarrow> do_call p c w = w"
  by (cases c) (simp_all add: inst_resolve_eq inst_reject_eq)

lemma do_calls_settled: "state (heap w p) \<noteq> PENDING \<Longrightarrow> do_calls p cs w = w"
  by (induction cs) (simp_all add: do_call_settled)

lemma do_call_pending:
  "state (heap w p) = PENDING \<Longrightarrow>
     state (heap (do_call p c w) p) = call_state c \<and> result (heap (do_call p c w) p) = call_value c"
  by (cases c) (simp_all add: inst_resolve_eq inst_reject_eq)

text \<open>
  Claim C1. \<open>_resolve\<close> passes its argument to \<open>_changeState\<close> without asking \<open>isPromise\<close>:
  an executor that calls \<open>resolve\<close> with an instance that is already rejected leaves the
  new instance fulfilled, at once and with nothing scheduled, and its result is the
  rejected instance itself.
\<close>

theorem resolve_keeps_promise_like_value:
  "case static_reject (Str ''no'') init_world of (q, w1) \<Rightarrow>
     case new_MyPromise (run_executor [XResolve (Inst q)]) w1 of (p, w2) \<Rightarrow>
       isPromise (Inst q) \<and> state (heap w2 q) = REJECTED \<and> result (heap w2 q) = Str ''no''
       \<and> state (heap w2 p) = FULFILLED \<and> result (heap w2 p) = Inst q
       \<and> microQueue w2 = []"
  by (simp add: static_reject_def new_MyPromise_def Let_def inst_resolve_eq inst_reject_eq
        init_world_def fresh_promise_def isPromise_def)

section \<open>Empty inputs of the aggregate operations\<close>

text \<open>
  Claim C2, as stated: \<open>all\<close> of the empty sequence fulfils with the empty array. It does
  not: the result is not \<open>[]\<close>.
\<close>

theorem all_empty_counterexample:
  "\<not> (case promise_all [] init_world of (p, w) \<Rightarrow> result (heap w p) = Arr [])"
  by (simp add: promise_all_empty)

text \<open>
  Claim C2, amended. \<open>all\<close> of the empty sequence returns a new instance that is fulfilled
  when the call returns, and its result is \<open>undefined\<close> (the guard at lines 185--188 calls
  \<open>resolve()\<close> with no argument).
\<close>

theorem all_empty_fulfils_undefined:
  "case promise_all [] w of (p, w') \<Rightarrow>
     p = nextId w \<and> state (heap w' p) = FULFILLED \<and> result (heap w' p) = Undefined"
  by (simp add: promise_all_empty)

text \<open>
  Claim C10. \<open>allSettled\<close> of the empty sequence maps nothing and delegates to \<open>all\<close> of
  the empty sequence, so it returns an instance fulfilled with \<open>undefined\<close>, not with an
  empty array of descriptors.
\<close>

theorem allSettled_empty_fulfils_undefined:
  "case allSettled [] w of (p, w') \<Rightarrow>
     p = nextId w \<and> state (heap w' p) = FULFILLED \<and> result (heap w' p) = Undefined
     \<and> result (heap w' p) \<noteq> Arr []"
  by (simp add: allSettled_def promise_all_empty)

section \<open>Quiet instances stay pending\<close>

lemma shields_quiet:
  assumes "shields d w w'" "quiet d w" "d < nextId w \<or> nextId w' \<le> d"
  shows "quiet d w'"
  using assms by (auto simp: shields_def quiet_def queue_quiet_def)

lemma tick_grows: "grows w (tick w)"
proof (cases "microQueue w")
  case Nil
  then show ?thesis by (simp add: tick_def)
next
  case (Cons t ts)
  have "grows (w\<lparr>microQueue := ts\<rparr>) (run_task t (w\<lparr>microQueue := ts\<rparr>))"
    by (rule run_task_grows)
  then show ?thesis using Cons by (simp add: tick_def grows_def)
qed

lemma tick_quiet:
  assumes "quiet d w" "d < nextId w \<or> nextId (tick w) \<le> d"
  shows "quiet d (tick w)"
proof (cases "microQueue w")
  case Nil
  then show ?thesis using assms by (simp add: tick_def)
next
  case (Cons t ts)
  let ?w = "w\<lparr>microQueue := ts\<rparr>"
  have t: "d \<notin> task_targets t" and q: "quiet d ?w"
    using assms(1) Cons by (simp_all add: quiet_def queue_quiet_def heap_quiet_def)
  have "quiet d (run_task t ?w)"
    using shields_quiet [OF run_task_shields [OF t] q] assms(2) Cons by (simp add: tick_def)
  then show ?thesis using Cons by (simp add: tick_def)
qed

lemma perform_grows: "grows (cworld c) (cworld (perform a c))"
proof (cases a)
  case (New ex)
  have "grows (cworld c) (snd (new_MyPromise (run_executor ex) (cworld c)))"
    by (rule new_MyPromise_grows) (rule run_executor_grows)
  then show ?thesis using New by (simp add: case_prod_beta)
qed (simp_all add: promise_then_grows promise_catch_def promise_finally_def static_resolve_grows
       static_reject_grows promise_all_grows allSettled_grows race_grows inst_resolve_grows
       inst_reject_grows tick_grows)

lemma perform_held:
  "set (held (perform a c)) \<subseteq> set (held c) \<union> {nextId (cworld c)}"
  by (cases a) (auto simp: case_prod_beta)

lemma perform_sealed:
  assumes "sealed d c" "d < nextId (cworld c) \<or> nextId (cworld (perform a c)) \<le> d"
  shows "sealed d (perform a c)"
proof -
  let ?w = "cworld c"
  have q: "quiet d ?w" and h: "d \<notin> set (held c)"
    using assms(1) by (simp_all add: sealed_def)
  have side: "d < nextId ?w \<or> nextId (cworld (perform a c)) \<le> d" by (rule assms(2))
  have "quiet d (cworld (perform a c))"
  proof (cases a)
    case (New ex)
    have "shields d ?w (snd (new_MyPromise (run_executor ex) ?w))"
      by (rule new_MyPromise_shields) (simp_all add: run_executor_grows run_executor_shields)
    from shields_quiet [OF this q] side New show ?thesis by (simp add: case_prod_beta)
  next
    case (Then p f g)
    from shields_quiet [OF promise_then_shields [of d "Arg f" "Arg g" ?w p] q] side Then q
    show ?thesis by (cases "p < nextId ?w") simp_all
  next
    case (Catch p g)
    from shields_quiet [OF promise_then_shields [of d "Arg NotAFunction" "Arg g" ?w p] q] side Catch q
    show ?thesis by (cases "p < nextId ?w") (simp_all add: promise_catch_def)
  next
    case (Finally p f)
    from shields_quiet [OF promise_then_shields [of d "FinallyFulfilled f" "FinallyRejected f" ?w p] q]
      side Finally q
    show ?thesis by (cases "p < nextId ?w") (simp_all add: promise_finally_def)
  next
    case (StaticResolve v)
    from shields_quiet [OF static_resolve_shields q] side StaticResolve show ?thesis by simp
  next
    case (StaticReject v)
    from shields_quiet [OF static_reject_shields q] side StaticReject show ?thesis by simp
  next
    case (All vs)
    from shields_quiet [OF promise_all_shields q] side All show ?thesis by simp
  next
    case (AllSettled vs)
    from shields_quiet [OF allSettled_shields q] side AllSettled show ?thesis by simp
  next
    case (Race vs)
    from shields_quiet [OF race_shields q] side Race show ?thesis by simp
  next
    case (CallResolve p v)
    show ?thesis
    proof (cases "p \<in> set (held c)")
      case True
      with h have "d \<noteq> p" by auto
      from shields_quiet [OF inst_resolve_shields [OF this] q] side CallResolve True
      show ?thesis by simp
    next
      case False
      then show ?thesis using CallResolve q by simp
    qed
  next
    case (CallReject p v)
    show ?thesis
    proof (cases "p \<in> set (held c)")
      case True
      with h have "d \<noteq> p" by auto
      from shields_quiet [OF inst_reject_shields [OF this] q] side CallReject True
      show ?thesis by simp
    next
      case False
      then show ?thesis using CallReject q by simp
    qed
  next
    case Tick
    from tick_quiet [OF q] side Tick show ?thesis by simp
  qed
  moreover have "d \<notin> set (held (perform a c))"
  proof (cases a)
    case (New ex)
    have "nextId ?w < nextId (snd (new_MyPromise (run_executor ex) ?w))"
      by (rule new_MyPromise_nextId) (rule run_executor_grows)
    with side New have "d \<noteq> nextId ?w" by (auto simp: case_prod_beta)
    with h New show ?thesis by (simp add: case_prod_beta)
  qed (use h in simp_all)
  ultimately show ?thesis by (simp add: sealed_def)
qed

lemma run_grows: "grows (cworld c) (cworld (run as c))"
proof (induction as arbitrary: c)
  case (Cons a as)
  show ?case
    using grows_trans [OF perform_grows Cons [of "perform a c"]] by simp
qed simp

text \<open>An instance that exists and is sealed stays sealed, whatever the client does.\<close>

lemma run_sealed:
  "sealed d c \<Longrightarrow> d < nextId (cworld c) \<Longrightarrow> sealed d (run as c)"
proof (induction as arbitrary: c)
  case (Cons a as)
  have "sealed d (perform a c)"
    using perform_sealed [of d c a] Cons.prems by simp
  moreover have "d < nextId (cworld (perform a c))"
    using perform_grows [of c a] Cons.prems(2) by (simp add: grows_def)
  ultimately show ?case using Cons.IH by simp
qed simp

text \<open>The addresses that are not yet in use are sealed in every world a client program reaches.\<close>

lemma run_unused_sealed:
  "(\<And>d. nextId (cworld c) \<le> d \<Longrightarrow> sealed d c) \<Longrightarrow>
   nextId (cworld (run as c)) \<le> d \<Longrightarrow> sealed d (run as c)"
proof (induction as arbitrary: c)
  case (Cons a as)
  have "\<And>d. nextId (cworld (perform a c)) \<le> d \<Longrightarrow> sealed d (perform a c)"
  proof -
    fix d assume d: "nextId (cworld (perform a c)) \<le> d"
    moreover have "nextId (cworld c) \<le> nextId (cworld (perform a c))"
      using perform_grows [of c a] by (simp add: grows_def)
    ultimately have "sealed d c" using Cons.prems(1) by simp
    then show "sealed d (perform a c)" using perform_sealed [of d c a] d by simp
  qed
  then show ?case using Cons.IH [of "perform a c"] Cons.prems(2) by simp
qed simp

lemma init_sealed: "sealed d init_client"
  by (simp add: sealed_def quiet_def heap_quiet_def queue_quiet_def init_client_def init_world_def
      fresh_promise_def)

lemma reachable_unused_sealed:
  "nextId (cworld (run as init_client)) \<le> d \<Longrightarrow> sealed d (run as init_client)"
  by (rule run_unused_sealed) (simp_all add: init_sealed)


text \<open>
  Claim C8. \<open>race\<close> of the empty sequence returns a new pending instance and hands its
  \<open>resolve\<close> and \<open>reject\<close> to nobody. Whatever client program ran before the call and
  whatever client program runs after it (constructors, \<open>then\<close>, \<open>catch\<close>, \<open>finally\<close>, the
  static operations, calls of the \<open>resolve\<close>/\<open>reject\<close> functions the client holds, and
  any number of scheduled tasks run by the host), the instance is still pending.
\<close>

theorem race_empty_never_settles:
  "case race [] (cworld (run before init_client)) of
     (p, w1) \<Rightarrow>
       state (heap w1 p) = PENDING \<and>
       state (heap (cworld (run after ((run before init_client)\<lparr>cworld := w1\<rparr>))) p) = PENDING"
proof -
  let ?c0 = "run before init_client"
  let ?p = "nextId (cworld ?c0)"
  let ?w1 = "(cworld ?c0)\<lparr>heap := (heap (cworld ?c0))(?p := fresh_promise), nextId := ?p + 1\<rparr>"
  let ?c1 = "?c0\<lparr>cworld := ?w1\<rparr>"
  have "sealed ?p ?c0"
    by (rule reachable_unused_sealed) simp
  then have s1: "sealed ?p ?c1"
    by (auto simp: sealed_def quiet_def heap_quiet_def fresh_promise_def)
  have "sealed ?p (run after ?c1)"
    by (rule run_sealed [OF s1]) simp
  then have "state (heap (cworld (run after ?c1)) ?p) = PENDING"
    by (simp add: sealed_def quiet_def heap_quiet_def)
  then show ?thesis
    by (simp add: race_empty fresh_promise_def)
qed

section \<open>The constructor's \<open>catch\<close>\<close>

text \<open>
  Claim C4, as stated: every initializer that raises leaves the new instance rejected with
  the raised error. It does not when the initializer has settled the instance before it
  raises: \<open>(resolve) => { resolve(1); throw 'boom' }\<close> raises \<open>'boom'\<close>, and the instance
  is fulfilled with \<open>1\<close>.
\<close>

theorem raising_initializer_counterexample:
  "fst (run_executor [XResolve (Num 1), XThrow (Str ''boom'')] 0
         (init_world\<lparr>heap := (heap init_world)(0 := fresh_promise), nextId := 1\<rparr>))
     = Throw (Str ''boom'')
   \<and> (case new_MyPromise (run_executor [XResolve (Num 1), XThrow (Str ''boom'')]) init_world of
        (p, w) \<Rightarrow> p = 0 \<and> state (heap w p) = FULFILLED \<and> result (heap w p) = Num 1
                  \<and> \<not> (state (heap w p) = REJECTED \<and> result (heap w p) = Str ''boom''))"
  by (simp add: new_MyPromise_def Let_def inst_resolve_eq inst_reject_eq init_world_def
        fresh_promise_def)

text \<open>
  Claim C4, amended. For every executor that raises (here any function of the new
  instance and the world, returning the error and the world it left), the constructor
  returns the new instance, so the raise does not reach its caller. The instance is
  rejected with the raised error if it is still pending when the executor raises; if the
  executor had settled it before, \<open>this._reject(error)\<close> is a no-op and the earlier
  settlement stands.
\<close>

theorem raising_initializer_rejects_if_pending:
  assumes "ex (nextId w) (w\<lparr>heap := (heap w)(nextId w := fresh_promise), nextId := nextId w + 1\<rparr>)
             = (Throw e, w2)"
  shows "fst (new_MyPromise ex w) = nextId w
       \<and> (state (heap w2 (nextId w)) = PENDING \<longrightarrow>
            state (heap (snd (new_MyPromise ex w)) (nextId w)) = REJECTED
          \<and> result (heap (snd (new_MyPromise ex w)) (nextId w)) = e)
       \<and> (state (heap w2 (nextId w)) \<noteq> PENDING \<longrightarrow> snd (new_MyPromise ex w) = w2)"
  using assms by (simp add: new_MyPromise_def Let_def inst_reject_eq)

theorem raising_initializer_rejects_if_pending_witness:
  "fst (new_MyPromise (run_executor [XThrow (Str ''boom'')]) init_world) = 0
   \<and> state (heap (snd (new_MyPromise (run_executor [XThrow (Str ''boom'')]) init_world)) 0) = REJECTED
   \<and> result (heap (snd (new_MyPromise (run_executor [XThrow (Str ''boom'')]) init_world)) 0) = Str ''boom''
   \<and> state (heap (snd (new_MyPromise (run_executor [XReject (Num 2), XThrow (Str ''boom'')]) init_world)) 0)
       = REJECTED
   \<and> result (heap (snd (new_MyPromise (run_executor [XReject (Num 2), XThrow (Str ''boom'')]) init_world)) 0)
       = Num 2"
proof -
  let ?w1 = "init_world\<lparr>heap := (heap init_world)(nextId init_world := fresh_promise),
                          nextId := nextId init_world + 1\<rparr>"
  let ?w2 = "inst_reject 0 (Num 2) ?w1"
  have n: "nextId init_world = 0" by (simp add: init_world_def)
  have a: "run_executor [XThrow (Str ''boom'')] (nextId init_world) ?w1 = (Throw (Str ''boom''), ?w1)"
    by simp
  have b: "run_executor [XReject (Num 2), XThrow (Str ''boom'')] (nextId init_world) ?w1
             = (Throw (Str ''boom''), ?w2)"
    by (simp add: n)
  have pa: "state (heap ?w1 (nextId init_world)) = PENDING"
    by (simp add: fresh_promise_def)
  have pb: "state (heap ?w2 (nextId init_world)) \<noteq> PENDING" "state (heap ?w2 0) = REJECTED"
     "result (heap ?w2 0) = Num 2"
    by (simp_all add: n inst_reject_eq fresh_promise_def)
  show ?thesis
    using raising_initializer_rejects_if_pending
            [of "run_executor [XThrow (Str ''boom'')]" init_world "Str ''boom''" ?w1, OF a]
          raising_initializer_rejects_if_pending
            [of "run_executor [XReject (Num 2), XThrow (Str ''boom'')]" init_world "Str ''boom''" ?w2, OF b]
      pa pb n
    by simp
qed

section \<open>The test for a promise-like value\<close>

text \<open>
  Claim C7, as stated: any value with a callable \<open>then\<close> is adopted, a function included.
  A function whose property \<open>then\<close> is a function is not: \<open>isPromise\<close> is false for it, and
  \<open>MyPromise.resolve\<close> fulfils with the function itself, where for the plain object with
  the same \<open>then\<close> it calls \<open>then\<close> and fulfils with the value \<open>then\<close> passes on.
\<close>

theorem function_with_then_counterexample:
  "then_is_function (Fn [] [(''then'', Fn [(CallFirst, Num 7)] [])])
   \<and> \<not> isPromise (Fn [] [(''then'', Fn [(CallFirst, Num 7)] [])])
   \<and> (case static_resolve (Fn [] [(''then'', Fn [(CallFirst, Num 7)] [])]) init_world of
        (p, w) \<Rightarrow> state (heap w p) = FULFILLED
                  \<and> result (heap w p) = Fn [] [(''then'', Fn [(CallFirst, Num 7)] [])])
   \<and> (case static_resolve (Obj [(''then'', Fn [(CallFirst, Num 7)] [])]) init_world of
        (p, w) \<Rightarrow> state (heap w p) = FULFILLED \<and> result (heap w p) = Num 7)"
  by (simp add: isPromise_def lookup_def static_resolve_def new_MyPromise_def Let_def
        inst_resolve_eq init_world_def fresh_promise_def)

lemma typeof_function: "typeof t = TFunction \<longleftrightarrow> (\<exists>body qs. t = Fn body qs)"
  by (cases t) simp_all

lemma isPromise_iff:
  "isPromise v \<longleftrightarrow>
     (\<exists>p. v = Inst p) \<or> (\<exists>ps body qs. v = Obj ps \<and> lookup ps ''then'' = Fn body qs)"
  by (cases v) (auto simp: isPromise_def typeof_function)

lemma static_resolve_plain:
  "\<not> isPromise v \<Longrightarrow>
     static_resolve v w =
       (nextId w,
        w\<lparr>heap := (heap w)(nextId w := \<lparr>state = FULFILLED, result = v, handlerQueue = []\<rparr>),
          nextId := nextId w + 1\<rparr>)"
  by (simp add: static_resolve_def new_MyPromise_def Let_def inst_resolve_eq fresh_promise_def)

text \<open>
  Claim C7, amended. \<open>isPromise\<close> holds exactly for the values whose \<open>typeof\<close> is
  \<open>'object'\<close>, that are not \<open>null\<close> and whose \<open>then\<close> is a function: the instances of the
  class and the plain objects with a function as \<open>then\<close>, whatever that function does. It
  is false for every function value, so \<open>MyPromise.resolve\<close> of a function fulfils with
  the function at once, while \<open>MyPromise.resolve\<close> of a plain object with a function as
  \<open>then\<close> calls that function with the new instance's \<open>resolve\<close> and \<open>reject\<close>; and a
  task whose continuation returns a function value resolves the downstream instance with
  that function.
\<close>

theorem isPromise_objects_only:
  "(isPromise v \<longleftrightarrow>
      (\<exists>p. v = Inst p) \<or> (\<exists>ps body qs. v = Obj ps \<and> lookup ps ''then'' = Fn body qs))
   \<and> \<not> isPromise (Fn body' ps')
   \<and> static_resolve (Fn body' ps') w =
       (nextId w,
        w\<lparr>heap := (heap w)(nextId w :=
             \<lparr>state = FULFILLED, result = Fn body' ps', handlerQueue = []\<rparr>),
          nextId := nextId w + 1\<rparr>)
   \<and> static_resolve (Obj [(''then'', Fn body' ps')]) w =
       new_MyPromise (\<lambda>this. run_body body' (ResolveOf this) (RejectOf this)) w
   \<and> run_task (Task p \<lparr>executor = Arg (UserFn (\<lambda>u. Return (Fn body' ps'))),
                        hstate = state (heap w p), resolve = ResolveOf d, reject = RejectOf d\<rparr>) w
       = inst_resolve d (Fn body' ps') w"
proof -
  have f: "\<not> isPromise (Fn body' ps')" by (simp add: isPromise_def)
  have o: "isPromise (Obj [(''then'', Fn body' ps')])" by (simp add: isPromise_def lookup_def)
  show ?thesis
    using isPromise_iff [of v] f static_resolve_plain [OF f, of w] o
    by (simp add: static_resolve_def lookup_def run_task_def)
qed

section \<open>From attachment to the run of the two tasks\<close>

lemma ticks_add: "ticks (m + n) w = ticks n (ticks m w)"
  by (induction m arbitrary: w) simp_all

text \<open>
  Tasks at the front of the host's queue that cannot settle \<open>d\<close> are run; \<open>d\<close> stays
  pending, the settled instances keep their outcome, and the rest of the queue comes to
  the front.
\<close>

lemma prefix_ticks:
  assumes "microQueue x = ts @ rest" "queue_quiet d ts" "heap_quiet d x" "d < nextId x"
  shows "grows x (ticks (length ts) x) \<and> heap_quiet d (ticks (length ts) x)
       \<and> (\<exists>new. microQueue (ticks (length ts) x) = rest @ new)"
  using assms
proof (induction ts arbitrary: x rest)
  case Nil
  then show ?case by simp
next
  case (Cons t ts)
  let ?x0 = "x\<lparr>microQueue := ts @ rest\<rparr>"
  let ?x1 = "run_task t ?x0"
  have tk: "tick x = ?x1" using Cons.prems(1) by (simp add: tick_def)
  have t: "d \<notin> task_targets t" and ts: "queue_quiet d ts"
    using Cons.prems(2) by (simp_all add: queue_quiet_def)
  have hq0: "heap_quiet d ?x0" using Cons.prems(3) by (simp add: heap_quiet_def)
  have g0: "grows ?x0 ?x1" by (rule run_task_grows)
  then have g: "grows x ?x1" by (simp add: grows_def)
  have "shields d ?x0 ?x1" by (rule run_task_shields [OF t])
  with hq0 Cons.prems(4) obtain new where
    1: "heap_quiet d ?x1" "microQueue ?x1 = ts @ (rest @ new)"
    by (auto simp: shields_def)
  have n: "d < nextId ?x1" using g Cons.prems(4) by (simp add: grows_def)
  from Cons.IH [OF 1(2) ts 1(1) n] obtain new' where
    2: "grows ?x1 (ticks (length ts) ?x1)" "heap_quiet d (ticks (length ts) ?x1)"
       "microQueue (ticks (length ts) ?x1) = (rest @ new) @ new'"
    by blast
  show ?case
    using grows_trans [OF g 2(1)] 2(2,3) tk by simp
qed

text \<open>
  The world after \<open>then\<close> on an existing instance \<open>p\<close>, followed by calls of \<open>p\<close>'s
  \<open>resolve\<close>/\<open>reject\<close> (none is needed when \<open>p\<close> was settled already), once \<open>p\<close> is
  settled: the two handlers of the new instance \<open>d\<close> are the last two scheduled tasks.
\<close>

lemma attached:
  assumes q: "quiet (nextId w) w" and p: "p < nextId w"
      and x: "x = do_calls p cs (snd (promise_then p a b w))"
      and s: "state (heap x p) \<noteq> PENDING"
  shows "\<exists>ts. microQueue x = ts @
             [Task p \<lparr>executor = a, hstate = FULFILLED, resolve = ResolveOf (nextId w),
                       reject = RejectOf (nextId w)\<rparr>,
              Task p \<lparr>executor = b, hstate = REJECTED, resolve = ResolveOf (nextId w),
                       reject = RejectOf (nextId w)\<rparr>]
           \<and> queue_quiet (nextId w) ts \<and> heap_quiet (nextId w) x \<and> nextId x = nextId w + 1
           \<and> (state (heap w p) \<noteq> PENDING \<longrightarrow>
                state (heap x p) = state (heap w p) \<and> result (heap x p) = result (heap w p))"
proof (cases "state (heap w p) = PENDING")
  case False
  let ?w1 = "snd (promise_then p a b w)"
  have "state (heap ?w1 p) \<noteq> PENDING"
    using False p by (simp add: promise_then_eq pushHandler_def executeHandlers_eq fresh_promise_def)
  then have "x = ?w1" using x by (simp add: do_calls_settled)
  then show ?thesis
    using False p q
    by (auto simp: promise_then_eq pushHandler_def executeHandlers_eq fresh_promise_def
          quiet_def heap_quiet_def queue_quiet_def)
next
  case True
  let ?w1 = "snd (promise_then p a b w)"
  have pend: "state (heap ?w1 p) = PENDING"
    using True p by (simp add: promise_then_eq pushHandler_def executeHandlers_eq fresh_promise_def)
  obtain c cs' where cs: "cs = c # cs'"
    using x s pend by (cases cs) auto
  have "state (heap (do_call p c ?w1) p) \<noteq> PENDING"
    using do_call_pending [OF pend, of c] by (cases c) simp_all
  then have "x = do_call p c ?w1"
    using x cs by (simp add: do_calls_settled)
  then show ?thesis
    using True p q
    by (cases c)
       (auto simp: promise_then_eq pushHandler_def executeHandlers_eq fresh_promise_def
          inst_resolve_eq inst_reject_eq quiet_def heap_quiet_def queue_quiet_def)
qed


lemma reachable_quiet: "quiet (nextId (cworld (run prog init_client))) (cworld (run prog init_client))"
  using reachable_unused_sealed [of prog "nextId (cworld (run prog init_client))"]
  by (simp add: sealed_def)

text \<open>
  When every task that was scheduled before the two handlers of \<open>d\<close> has run, the two
  handlers are next, \<open>d\<close> is still pending and \<open>p\<close> has the outcome it had.
\<close>

lemma before_two_tasks:
  assumes q: "quiet (nextId w) w" and p: "p < nextId w"
      and x: "x = do_calls p cs (snd (promise_then p a b w))"
      and s: "state (heap x p) \<noteq> PENDING"
  shows "\<exists>y new. ticks (length (microQueue x)) x = ticks 2 y
           \<and> microQueue y =
               Task p \<lparr>executor = a, hstate = FULFILLED, resolve = ResolveOf (nextId w),
                        reject = RejectOf (nextId w)\<rparr> #
               Task p \<lparr>executor = b, hstate = REJECTED, resolve = ResolveOf (nextId w),
                        reject = RejectOf (nextId w)\<rparr> # new
           \<and> state (heap y (nextId w)) = PENDING
           \<and> state (heap y p) = state (heap x p) \<and> result (heap y p) = result (heap x p)"
proof -
  let ?d = "nextId w"
  let ?T1 = "Task p \<lparr>executor = a, hstate = FULFILLED, resolve = ResolveOf ?d, reject = RejectOf ?d\<rparr>"
  let ?T2 = "Task p \<lparr>executor = b, hstate = REJECTED, resolve = ResolveOf ?d, reject = RejectOf ?d\<rparr>"
  from attached [OF q p x s] obtain ts where
    a: "microQueue x = ts @ [?T1, ?T2]" "queue_quiet ?d ts" "heap_quiet ?d x" "nextId x = ?d + 1"
    by blast
  let ?y = "ticks (length ts) x"
  have dx: "?d < nextId x" using a(4) by simp
  from prefix_ticks [OF a(1) a(2) a(3) dx] obtain new where
    b: "grows x ?y" "heap_quiet ?d ?y" "microQueue ?y = [?T1, ?T2] @ new"
    by blast
  have px: "p < nextId x" using p a(4) by simp
  have "length (microQueue x) = length ts + 2" using a(1) by simp
  then have "ticks (length (microQueue x)) x = ticks 2 ?y"
    by (simp only: ticks_add)
  moreover have "state (heap ?y p) = state (heap x p) \<and> result (heap ?y p) = result (heap x p)"
    using b(1) px s by (simp add: grows_def)
  moreover have "state (heap ?y ?d) = PENDING"
    using b(2) by (simp add: heap_quiet_def)
  ultimately show ?thesis using b(3) by auto
qed

lemma ticks_2: "ticks 2 y = tick (tick y)"
  by (simp add: numeral_2_eq_2)

lemmas eval_defs =
  static_reject_def static_resolve_def new_MyPromise_def Let_def inst_reject_eq inst_resolve_eq
  init_client_def init_world_def fresh_promise_def promise_then_eq promise_finally_def
  pushHandler_def executeHandlers_eq isPromise_def

text \<open>
  Claim C6. In any world a client program reaches, \<open>then\<close> with two arguments that are
  not functions, called on an instance that is settled, returns a new pending instance;
  once the tasks scheduled up to that moment have run, the new instance has the state and
  the result of the source: fulfilled with the same value, or rejected with the same
  reason.
\<close>

theorem then_without_continuations_forwards:
  assumes "w = cworld (run prog init_client)" and "p < nextId w"
      and "state (heap w p) \<noteq> PENDING"
      and "promise_then p (Arg NotAFunction) (Arg NotAFunction) w = (d, w1)"
  shows "state (heap w1 d) = PENDING
       \<and> state (heap (ticks (length (microQueue w1)) w1) d) = state (heap w p)
       \<and> result (heap (ticks (length (microQueue w1)) w1) d) = result (heap w p)"
proof -
  have q: "quiet (nextId w) w" using assms(1) reachable_quiet by simp
  have d: "d = nextId w" and w1: "w1 = snd (promise_then p (Arg NotAFunction) (Arg NotAFunction) w)"
    using assms(4) promise_then_fst [of p "Arg NotAFunction" "Arg NotAFunction" w] by simp_all
  have x: "w1 = do_calls p [] (snd (promise_then p (Arg NotAFunction) (Arg NotAFunction) w))"
    using w1 by simp
  have same: "state (heap w1 p) = state (heap w p)" "result (heap w1 p) = result (heap w p)"
    and pend: "state (heap w1 d) = PENDING"
    using assms(2,3) unfolding w1 d
    by (simp_all add: promise_then_eq pushHandler_def executeHandlers_eq fresh_promise_def)
  then have s: "state (heap w1 p) \<noteq> PENDING" using assms(3) by simp
  from before_two_tasks [OF q assms(2) x s] obtain y new where
    y: "ticks (length (microQueue w1)) w1 = ticks 2 y"
       "microQueue y =
          Task p \<lparr>executor = Arg NotAFunction, hstate = FULFILLED, resolve = ResolveOf d,
                   reject = RejectOf d\<rparr> #
          Task p \<lparr>executor = Arg NotAFunction, hstate = REJECTED, resolve = ResolveOf d,
                   reject = RejectOf d\<rparr> # new"
       "state (heap y d) = PENDING"
       "state (heap y p) = state (heap w1 p)" "result (heap y p) = result (heap w1 p)"
    unfolding d by blast
  have ne: "d \<noteq> p" using assms(2) d by simp
  have "state (heap (ticks 2 y) d) = state (heap y p) \<and> result (heap (ticks 2 y) d) = result (heap y p)"
    using y(2,3) ne s y(4)
    by (cases "state (heap y p)")
       (simp_all add: ticks_2 tick_def run_task_def inst_resolve_eq inst_reject_eq)
  then show ?thesis using y(1,4,5) same pend by simp
qed


theorem then_without_continuations_forwards_witness:
  "state (heap (cworld (run [StaticReject (Str ''no'')] init_client)) 0) = REJECTED
   \<and> state (heap (ticks 2 (snd (promise_then 0 (Arg NotAFunction) (Arg NotAFunction)
                (cworld (run [StaticReject (Str ''no'')] init_client))))) 1) = REJECTED
   \<and> result (heap (ticks 2 (snd (promise_then 0 (Arg NotAFunction) (Arg NotAFunction)
                (cworld (run [StaticReject (Str ''no'')] init_client))))) 1) = Str ''no''"
proof -
  let ?w = "cworld (run [StaticReject (Str ''no'')] init_client)"
  let ?w1 = "snd (promise_then 0 (Arg NotAFunction) (Arg NotAFunction) ?w)"
  have a: "0 < nextId ?w" by (simp add: eval_defs)
  have b: "state (heap ?w 0) \<noteq> PENDING" by (simp add: eval_defs)
  have c: "promise_then 0 (Arg NotAFunction) (Arg NotAFunction) ?w = (1, ?w1)"
    by (simp add: eval_defs)
  have l: "length (microQueue ?w1) = 2" by (simp add: eval_defs)
  have r: "state (heap ?w 0) = REJECTED" "result (heap ?w 0) = Str ''no''"
    by (simp_all add: eval_defs)
  show ?thesis
    using then_without_continuations_forwards [OF refl a b c] l r by simp
qed

section \<open>The first settlement is final\<close>

lemma do_call_nextId [simp]: "nextId (do_call p c w) = nextId w"
  by (cases c) (simp_all add: inst_resolve_eq inst_reject_eq)

text \<open>
  Claim C3. On a pending instance the first call of \<open>resolve\<close> or \<open>reject\<close> sets the state
  and the result, and every later call of a sequence is a no-op: the whole world after the
  sequence is the world after its first call. The state and the result that the first
  call wrote are also what is read after any client program that runs from there, even one
  that holds the instance's \<open>resolve\<close> and \<open>reject\<close> and calls them again.
\<close>

theorem first_settlement_wins:
  assumes "state (heap w p) = PENDING" and "p < nextId w"
  shows "do_calls p (c # cs) w = do_call p c w
       \<and> state (heap (do_call p c w) p) = call_state c
       \<and> result (heap (do_call p c w) p) = call_value c
       \<and> state (heap (cworld (run prog \<lparr>cworld = do_call p c w, held = hs\<rparr>)) p) = call_state c
       \<and> result (heap (cworld (run prog \<lparr>cworld = do_call p c w, held = hs\<rparr>)) p) = call_value c"
proof -
  let ?w' = "do_call p c w"
  have st: "state (heap ?w' p) = call_state c" and re: "result (heap ?w' p) = call_value c"
    using do_call_pending [OF assms(1)] by simp_all
  have settled: "state (heap ?w' p) \<noteq> PENDING"
    using st by (cases c) simp_all
  then have "do_calls p cs ?w' = ?w'"
    by (rule do_calls_settled)
  moreover have "state (heap (cworld (run prog \<lparr>cworld = ?w', held = hs\<rparr>)) p) = state (heap ?w' p)
      \<and> result (heap (cworld (run prog \<lparr>cworld = ?w', held = hs\<rparr>)) p) = result (heap ?w' p)"
    using run_grows [of "\<lparr>cworld = ?w', held = hs\<rparr>" prog] settled assms(2)
    by (simp add: grows_def)
  ultimately show ?thesis using st re by simp
qed

theorem first_settlement_wins_witness:
  "state (heap (cworld (run [New []] init_client)) 0) = PENDING
   \<and> do_calls 0 [Complete (Num 1), Fail (Str ''late''), Complete (Num 2)]
        (cworld (run [New []] init_client))
       = do_call 0 (Complete (Num 1)) (cworld (run [New []] init_client))
   \<and> state (heap (do_call 0 (Complete (Num 1)) (cworld (run [New []] init_client))) 0) = FULFILLED
   \<and> result (heap (do_call 0 (Complete (Num 1)) (cworld (run [New []] init_client))) 0) = Num 1
   \<and> state (heap (cworld (run [CallReject 0 (Str ''late''), Tick, CallResolve 0 (Num 2)]
        \<lparr>cworld = do_call 0 (Complete (Num 1)) (cworld (run [New []] init_client)), held = [0]\<rparr>)) 0)
       = FULFILLED
   \<and> result (heap (cworld (run [CallReject 0 (Str ''late''), Tick, CallResolve 0 (Num 2)]
        \<lparr>cworld = do_call 0 (Complete (Num 1)) (cworld (run [New []] init_client)), held = [0]\<rparr>)) 0)
       = Num 1"
proof -
  let ?w = "cworld (run [New []] init_client)"
  have h: "state (heap ?w 0) = PENDING" and n: "0 < nextId ?w"
    by (simp_all add: eval_defs)
  show ?thesis
    using h first_settlement_wins [OF h n, of "Complete (Num 1)"
        "[Fail (Str ''late''), Complete (Num 2)]"
        "[CallReject 0 (Str ''late''), Tick, CallResolve 0 (Num 2)]" "[0]"]
    by simp
qed

section \<open>The two handlers until they are run\<close>

lemma then_record_targets [simp]: "d \<in> h_targets (then_record c st d)"
  by (simp add: then_record_def h_targets_def)

lemma expected_settled: "expected c st v = Some (s, r) \<Longrightarrow> st \<noteq> PENDING \<Longrightarrow> s \<noteq> PENDING"
  by (auto simp: expected_def split: if_splits option.splits completion.splits)

lemma pure_call_world: "pure_call c v = Some r \<Longrightarrow> call_cb c v w = (r, w)"
  by (induction c v rule: pure_call.induct) (auto split: option.splits)

text \<open>The later stages are kept by every step that grows the world and shields \<open>d\<close>.\<close>

lemma scheduled_step:
  assumes "scheduled d p a b w" "grows w w'" "shields d w w'" "d < nextId w" "p < nextId w"
  shows "scheduled d p a b w'"
proof -
  from assms(1) obtain ts1 ts2 where
    s: "state (heap w p) \<noteq> PENDING" "heap_quiet d w"
       "microQueue w = ts1 @ Task p (due_record a b d (state (heap w p))) # ts2"
       "\<forall>t \<in> set ts1 \<union> set ts2. d \<in> task_targets t \<longrightarrow>
           t = Task p (idle_record a b d (state (heap w p)))"
    by (auto simp: scheduled_def)
  have same: "state (heap w' p) = state (heap w p)"
    using assms(2,5) s(1) by (simp add: grows_def)
  from assms(3,4) s(2) obtain new where
    n: "heap_quiet d w'" "microQueue w' = microQueue w @ new" "queue_quiet d new"
    by (auto simp: shields_def)
  have "microQueue w' = ts1 @ Task p (due_record a b d (state (heap w' p))) # (ts2 @ new)"
    using n(2) s(3) same by simp
  moreover have "\<forall>t \<in> set ts1 \<union> set (ts2 @ new). d \<in> task_targets t \<longrightarrow>
           t = Task p (idle_record a b d (state (heap w' p)))"
    using s(4) n(3) same by (auto simp: queue_quiet_def)
  ultimately show ?thesis
    using n(1) s(1) same unfolding scheduled_def by metis
qed

lemma finished_step:
  assumes "finished d p a b w" "grows w w'" "d < nextId w" "p < nextId w"
  shows "finished d p a b w'"
proof -
  have s: "state (heap w p) \<noteq> PENDING" using assms(1) by (simp add: finished_def)
  have same: "state (heap w' p) = state (heap w p)" "result (heap w' p) = result (heap w p)"
    using assms(2,4) s by (simp_all add: grows_def)
  {
    fix st r
    assume e: "expected (if state (heap w p) = FULFILLED then a else b)
                 (state (heap w p)) (result (heap w p)) = Some (st, r)"
    then have d: "state (heap w d) = st \<and> result (heap w d) = r"
      using assms(1) by (simp add: finished_def)
    have "st \<noteq> PENDING" using expected_settled [OF e s] .
    with d have "state (heap w' d) = st \<and> result (heap w' d) = r"
      using assms(2,3) by (simp add: grows_def)
  }
  then show ?thesis using s same by (simp add: finished_def)
qed


lemma scheduledI:
  assumes "state (heap w p) \<noteq> PENDING" "heap_quiet d w"
      and "microQueue w = ts1 @ Task p (due_record a b d (state (heap w p))) # ts2"
      and "\<forall>t \<in> set ts1 \<union> set ts2.
             d \<in> task_targets t \<longrightarrow> t = Task p (idle_record a b d (state (heap w p)))"
  shows "scheduled d p a b w"
  unfolding scheduled_def using assms by blast

lemma awaiting_step:
  assumes "awaiting d p a b w" "grows w w'" "shields d w w'"
      and "waiting d p a b w \<Longrightarrow> waiting d p a b w' \<or> scheduled d p a b w'"
  shows "awaiting d p a b w'"
proof -
  have b: "d < nextId w" "p < nextId w" "d \<noteq> p"
    and c: "waiting d p a b w \<or> scheduled d p a b w"
    using assms(1) by (simp_all add: awaiting_def)
  have n: "nextId w \<le> nextId w'" using assms(2) by (simp add: grows_def)
  from c have "waiting d p a b w' \<or> scheduled d p a b w'"
  proof
    assume "waiting d p a b w" then show ?thesis by (rule assms(4))
  next
    assume "scheduled d p a b w"
    then show ?thesis using scheduled_step [OF _ assms(2,3) b(1,2)] by simp
  qed
  then show ?thesis using b n by (simp add: awaiting_def)
qed

lemma waiting_pushHandler:
  assumes "waiting d p a b w" "d \<notin> cb_targets ex" "d \<notin> cb_targets res" "d \<notin> cb_targets rej"
  shows "waiting d p a b (pushHandler q ex st res rej w)"
proof -
  let ?h = "\<lparr>executor = ex, hstate = st, resolve = res, reject = rej\<rparr>"
  from assms(1) obtain hs1 hs2 where
    w: "state (heap w p) = PENDING" "state (heap w d) = PENDING"
       "handlerQueue (heap w p) = hs1 @ then_record a FULFILLED d # then_record b REJECTED d # hs2"
       "\<forall>h \<in> set hs1 \<union> set hs2. d \<notin> h_targets h"
       "\<forall>q. q \<noteq> p \<longrightarrow> (\<forall>h \<in> set (handlerQueue (heap w q)). d \<notin> h_targets h)"
       "queue_quiet d (microQueue w)"
    by (auto simp: waiting_def)
  have hf: "d \<notin> h_targets ?h" using assms(2-4) by (simp add: h_targets_def)
  let ?hs2 = "if q = p then hs2 @ [?h] else hs2"
  have 1: "handlerQueue (heap (pushHandler q ex st res rej w) p) =
             hs1 @ then_record a FULFILLED d # then_record b REJECTED d # ?hs2"
    using w(3) by (cases "q = p") (simp_all add: pushHandler_def)
  have 2: "\<forall>h \<in> set hs1 \<union> set ?hs2. d \<notin> h_targets h"
    using w(4) hf by auto
  have 3: "\<forall>q'. q' \<noteq> p \<longrightarrow>
             (\<forall>h \<in> set (handlerQueue (heap (pushHandler q ex st res rej w) q')). d \<notin> h_targets h)"
    using w(5) hf by (auto simp: pushHandler_def)
  have 4: "state (heap (pushHandler q ex st res rej w) p) = PENDING"
          "state (heap (pushHandler q ex st res rej w) d) = PENDING"
          "queue_quiet d (microQueue (pushHandler q ex st res rej w))"
    using w(1,2,6) by (auto simp: pushHandler_def)
  show ?thesis
    unfolding waiting_def using 1 2 3 4 by blast
qed

text \<open>Settling or draining an instance other than the source moves handlers that cannot settle \<open>d\<close>.\<close>

lemma waiting_moved:
  assumes "waiting d p a b w" "q \<noteq> p" "q \<noteq> d"
  shows "waiting d p a b
           (w\<lparr>heap := (heap w)(q := (heap w q)\<lparr>state := st, result := r, handlerQueue := []\<rparr>),
              microQueue := microQueue w @ map (Task q) (handlerQueue (heap w q))\<rparr>)"
  using assms by (auto simp: waiting_def queue_quiet_def)

lemma waiting_executeHandlers:
  assumes "waiting d p a b w"
  shows "waiting d p a b (executeHandlers q w)"
proof (cases "state (heap w q) = PENDING")
  case True
  then show ?thesis using assms by (simp add: executeHandlers_eq)
next
  case False
  then have "q \<noteq> p" "q \<noteq> d" using assms by (auto simp: waiting_def)
  then show ?thesis
    using assms False by (auto simp: executeHandlers_eq waiting_def queue_quiet_def)
qed

text \<open>Settling the source schedules the two records, the due one among them.\<close>

lemma waiting_source_settled:
  assumes "waiting d p a b w" "d \<noteq> p" "st \<noteq> PENDING"
  shows "scheduled d p a b
           (w\<lparr>heap := (heap w)(p := (heap w p)\<lparr>state := st, result := r, handlerQueue := []\<rparr>),
              microQueue := microQueue w @ map (Task p) (handlerQueue (heap w p))\<rparr>)"
proof -
  let ?H1 = "then_record a FULFILLED d" and ?H2 = "then_record b REJECTED d"
  let ?w' = "w\<lparr>heap := (heap w)(p := (heap w p)\<lparr>state := st, result := r, handlerQueue := []\<rparr>),
              microQueue := microQueue w @ map (Task p) (handlerQueue (heap w p))\<rparr>"
  from assms(1) obtain hs1 hs2 where
    w: "state (heap w d) = PENDING"
       "handlerQueue (heap w p) = hs1 @ ?H1 # ?H2 # hs2"
       "\<forall>h \<in> set hs1 \<union> set hs2. d \<notin> h_targets h"
       "\<forall>q. q \<noteq> p \<longrightarrow> (\<forall>h \<in> set (handlerQueue (heap w q)). d \<notin> h_targets h)"
       "queue_quiet d (microQueue w)"
    by (auto simp: waiting_def)
  have hq: "heap_quiet d ?w'"
    using w(1,4) assms(2) by (auto simp: heap_quiet_def)
  have sp: "state (heap ?w' p) = st" by simp
  show ?thesis
  proof (cases "st = FULFILLED")
    case True
    have "microQueue ?w' = (microQueue w @ map (Task p) hs1) @ Task p ?H1 # (Task p ?H2 # map (Task p) hs2)"
      using w(2) by simp
    moreover have "\<forall>t \<in> set (microQueue w @ map (Task p) hs1) \<union> set (Task p ?H2 # map (Task p) hs2).
        d \<in> task_targets t \<longrightarrow> t = Task p ?H2"
      using w(3,5) by (auto simp: queue_quiet_def)
    ultimately show ?thesis
      using hq True
      by (intro scheduledI [where ?ts1.0 = "microQueue w @ map (Task p) hs1"
                             and ?ts2.0 = "Task p ?H2 # map (Task p) hs2"])
         (simp_all add: due_record_def idle_record_def)
  next
    case False
    have "microQueue ?w' = (microQueue w @ map (Task p) hs1 @ [Task p ?H1]) @ Task p ?H2 # map (Task p) hs2"
      using w(2) by simp
    moreover have "\<forall>t \<in> set (microQueue w @ map (Task p) hs1 @ [Task p ?H1]) \<union> set (map (Task p) hs2).
        d \<in> task_targets t \<longrightarrow> t = Task p ?H1"
      using w(3,5) by (auto simp: queue_quiet_def)
    ultimately show ?thesis
      using hq False assms(3)
      by (intro scheduledI [where ?ts1.0 = "microQueue w @ map (Task p) hs1 @ [Task p ?H1]"
                             and ?ts2.0 = "map (Task p) hs2"])
         (simp_all add: due_record_def idle_record_def)
  qed
qed

lemma waiting_inst_resolve:
  assumes "waiting d p a b w" "q \<noteq> d" "d \<noteq> p"
  shows "waiting d p a b (inst_resolve q v w) \<or> scheduled d p a b (inst_resolve q v w)"
proof (cases "state (heap w q) = PENDING")
  case False
  then show ?thesis using assms(1) by (simp add: inst_resolve_eq)
next
  case True
  show ?thesis
  proof (cases "q = p")
    case True
    then show ?thesis
      using waiting_source_settled [OF assms(1,3), where st = FULFILLED and r = v] assms(1)
      by (simp add: inst_resolve_eq waiting_def)
  next
    case False
    then show ?thesis
      using waiting_moved [OF assms(1) False assms(2), where st = FULFILLED and r = v] True
      by (simp add: inst_resolve_eq)
  qed
qed

lemma waiting_inst_reject:
  assumes "waiting d p a b w" "q \<noteq> d" "d \<noteq> p"
  shows "waiting d p a b (inst_reject q v w) \<or> scheduled d p a b (inst_reject q v w)"
proof (cases "state (heap w q) = PENDING")
  case False
  then show ?thesis using assms(1) by (simp add: inst_reject_eq)
next
  case True
  show ?thesis
  proof (cases "q = p")
    case True
    then show ?thesis
      using waiting_source_settled [OF assms(1,3), where st = REJECTED and r = v] assms(1)
      by (simp add: inst_reject_eq waiting_def)
  next
    case False
    then show ?thesis
      using waiting_moved [OF assms(1) False assms(2), where st = REJECTED and r = v] True
      by (simp add: inst_reject_eq)
  qed
qed

lemma waiting_alloc:
  assumes "waiting d p a b w" "d < nextId w" "p < nextId w"
  shows "waiting d p a b (w\<lparr>heap := (heap w)(nextId w := fresh_promise), nextId := nextId w + 1\<rparr>)"
  using assms by (auto simp: waiting_def fresh_promise_def)

lemma awaiting_vars [simp]:
  "awaiting d p a b (w\<lparr>allVars := av\<rparr>) = awaiting d p a b w"
  "awaiting d p a b (w\<lparr>allVars := av, nextVars := nv\<rparr>) = awaiting d p a b w"
  by (simp_all add: awaiting_def waiting_def scheduled_def heap_quiet_def)


lemma awaiting_bounds: "awaiting d p a b w \<Longrightarrow> d < nextId w \<and> p < nextId w \<and> d \<noteq> p"
  by (simp add: awaiting_def)

lemma awaiting_pushHandler:
  assumes "awaiting d p a b w" "d \<notin> cb_targets ex" "d \<notin> cb_targets res" "d \<notin> cb_targets rej"
  shows "awaiting d p a b (pushHandler q ex st res rej w)"
  by (rule awaiting_step [OF assms(1) pushHandler_grows pushHandler_shields [OF assms(2-4)]])
     (simp add: waiting_pushHandler [OF _ assms(2-4)])

lemma awaiting_executeHandlers:
  "awaiting d p a b w \<Longrightarrow> awaiting d p a b (executeHandlers q w)"
  by (rule awaiting_step [OF _ executeHandlers_grows executeHandlers_shields])
     (simp_all add: waiting_executeHandlers)

lemma awaiting_inst_resolve:
  assumes "awaiting d p a b w" "q \<noteq> d"
  shows "awaiting d p a b (inst_resolve q v w)"
proof -
  have "d \<noteq> q" "d \<noteq> p" using assms awaiting_bounds [OF assms(1)] by auto
  then show ?thesis
    by (intro awaiting_step [OF assms(1) inst_resolve_grows inst_resolve_shields]
          waiting_inst_resolve [OF _ assms(2)])
qed

lemma awaiting_inst_reject:
  assumes "awaiting d p a b w" "q \<noteq> d"
  shows "awaiting d p a b (inst_reject q v w)"
proof -
  have "d \<noteq> q" "d \<noteq> p" using assms awaiting_bounds [OF assms(1)] by auto
  then show ?thesis
    by (intro awaiting_step [OF assms(1) inst_reject_grows inst_reject_shields]
          waiting_inst_reject [OF _ assms(2)])
qed

lemma awaiting_alloc:
  assumes "awaiting d p a b w"
  shows "awaiting d p a b (w\<lparr>heap := (heap w)(nextId w := fresh_promise), nextId := nextId w + 1\<rparr>)"
proof (rule awaiting_step [OF assms alloc_grows alloc_shields])
  assume "waiting d p a b w"
  then have "waiting d p a b (w\<lparr>heap := (heap w)(nextId w := fresh_promise), nextId := nextId w + 1\<rparr>)"
    using awaiting_bounds [OF assms] by (intro waiting_alloc) simp_all
  then show "waiting d p a b (w\<lparr>heap := (heap w)(nextId w := fresh_promise), nextId := nextId w + 1\<rparr>)
           \<or> scheduled d p a b (w\<lparr>heap := (heap w)(nextId w := fresh_promise), nextId := nextId w + 1\<rparr>)"
    by (rule disjI1)
qed

lemma awaiting_call_cb:
  assumes "awaiting d p a b w" "d \<notin> cb_targets c"
  shows "awaiting d p a b (snd (call_cb c v w))"
  using assms
  by (cases c)
     (auto simp: Let_def awaiting_inst_resolve awaiting_inst_reject split: option.splits)

lemma awaiting_run_body:
  "awaiting d p a b w \<Longrightarrow> d \<notin> cb_targets x \<Longrightarrow> d \<notin> cb_targets y \<Longrightarrow>
   awaiting d p a b (snd (run_body body x y w))"
proof (induction body x y w rule: run_body.induct)
  case (2 v rest x y w)
  have "awaiting d p a b (snd (call_cb x v w))"
    using 2(2,3) by (rule awaiting_call_cb)
  then show ?case
    using 2 by (cases "call_cb x v w") (auto split: completion.splits)
next
  case (3 v rest x y w)
  have "awaiting d p a b (snd (call_cb y v w))"
    using 3(2,4) by (rule awaiting_call_cb)
  then show ?case
    using 3 by (cases "call_cb y v w") (auto split: completion.splits)
qed simp_all

lemma awaiting_new_MyPromise:
  assumes "awaiting d p a b w"
      and "\<And>w1. awaiting d p a b w1 \<Longrightarrow> awaiting d p a b (snd (ex (nextId w) w1))"
  shows "awaiting d p a b (snd (new_MyPromise ex w))"
proof -
  let ?w1 = "w\<lparr>heap := (heap w)(nextId w := fresh_promise), nextId := nextId w + 1\<rparr>"
  obtain r w2 where ex: "ex (nextId w) ?w1 = (r, w2)" by (cases "ex (nextId w) ?w1")
  have 2: "awaiting d p a b w2"
    using assms(2) [OF awaiting_alloc [OF assms(1)]] ex by simp
  have "nextId w \<noteq> d" using awaiting_bounds [OF assms(1)] by simp
  then show ?thesis
    using ex 2 awaiting_inst_reject [OF 2]
    by (cases r) (simp_all add: new_MyPromise_def Let_def)
qed

lemma awaiting_promise_then:
  assumes "awaiting d p a b w" "d \<notin> cb_targets x" "d \<notin> cb_targets y"
  shows "awaiting d p a b (snd (promise_then q x y w))"
  unfolding promise_then_def
proof (rule awaiting_new_MyPromise [OF assms(1)])
  fix w1 assume 1: "awaiting d p a b w1"
  have n: "d \<notin> cb_targets (ResolveOf (nextId w))" "d \<notin> cb_targets (RejectOf (nextId w))"
    using awaiting_bounds [OF assms(1)] by simp_all
  show "awaiting d p a b (snd (Return Undefined,
          executeHandlers q (pushHandler q y REJECTED (ResolveOf (nextId w)) (RejectOf (nextId w))
            (pushHandler q x FULFILLED (ResolveOf (nextId w)) (RejectOf (nextId w)) w1))))"
    using 1 assms(2,3) n
    by (simp add: awaiting_executeHandlers awaiting_pushHandler)
qed

lemma awaiting_invoke_then:
  assumes "awaiting d p a b w" "d \<notin> cb_targets x" "d \<notin> cb_targets y"
  shows "awaiting d p a b (snd (invoke_then v x y w))"
proof (cases v)
  case (Inst q)
  then show ?thesis
    using awaiting_promise_then [OF assms, of q] by (auto split: prod.splits)
next
  case (Obj ps)
  then show ?thesis
    using assms by (cases "lookup ps ''then''") (simp_all add: awaiting_run_body)
qed (use assms in simp_all)

lemma awaiting_caught:
  assumes "awaiting d p a b (snd rw)" "d \<notin> cb_targets c"
  shows "awaiting d p a b
           (case rw of (Throw error, w2) \<Rightarrow> snd (call_cb c error w2) | (Return u, w2) \<Rightarrow> w2)"
proof (cases rw)
  case (Pair r w2)
  then show ?thesis
    using assms awaiting_call_cb [of d p a b w2 c] by (cases r) simp_all
qed

lemma awaiting_run_task:
  assumes "awaiting d p a b w" "d \<notin> task_targets t"
  shows "awaiting d p a b (run_task t w)"
proof (cases t)
  case (Task this h)
  with assms(2) have nt: "d \<notin> cb_targets (executor h)" "d \<notin> cb_targets (resolve h)"
      "d \<notin> cb_targets (reject h)"
    by (simp_all add: h_targets_def)
  show ?thesis
  proof (cases "call_cb (executor h) (result (heap w this)) w")
    case (Pair r w1)
    have a1: "awaiting d p a b w1"
      using awaiting_call_cb [OF assms(1) nt(1), of "result (heap w this)"] Pair by simp
    show ?thesis
    proof (cases r)
      case (Return x)
      have i: "awaiting d p a b (case invoke_then x (resolve h) (reject h) w1 of
                 (Throw error, w2) \<Rightarrow> snd (call_cb (reject h) error w2) | (Return u, w2) \<Rightarrow> w2)"
        by (rule awaiting_caught [OF awaiting_invoke_then [OF a1 nt(2,3)] nt(3)])
      have c: "awaiting d p a b (case call_cb (resolve h) x w1 of
                 (Throw error, w2) \<Rightarrow> snd (call_cb (reject h) error w2) | (Return u, w2) \<Rightarrow> w2)"
        by (rule awaiting_caught [OF awaiting_call_cb [OF a1 nt(2)] nt(3)])
      show ?thesis
        using Task Pair Return i c assms(1) nt
        by (simp add: run_task_def awaiting_call_cb)
    next
      case (Throw e)
      then show ?thesis
        using Task Pair assms(1) nt awaiting_call_cb [OF a1 nt(3)]
        by (simp add: run_task_def awaiting_call_cb)
    qed
  qed
qed

lemma awaiting_static_resolve:
  assumes "awaiting d p a b w"
  shows "awaiting d p a b (snd (static_resolve v w))"
  unfolding static_resolve_def
proof (rule awaiting_new_MyPromise [OF assms])
  fix w1 assume 1: "awaiting d p a b w1"
  have n: "d \<notin> cb_targets (ResolveOf (nextId w))" "d \<notin> cb_targets (RejectOf (nextId w))"
    using awaiting_bounds [OF assms] by simp_all
  show "awaiting d p a b (snd (if isPromise v
          then invoke_then v (ResolveOf (nextId w)) (RejectOf (nextId w)) w1
          else call_cb (ResolveOf (nextId w)) v w1))"
    using awaiting_invoke_then [OF 1 n] awaiting_call_cb [OF 1 n(1)] by simp
qed

lemma awaiting_static_reject:
  assumes "awaiting d p a b w"
  shows "awaiting d p a b (snd (static_reject v w))"
  unfolding static_reject_def
proof (rule awaiting_new_MyPromise [OF assms])
  fix w1 assume 1: "awaiting d p a b w1"
  have n: "d \<notin> cb_targets (RejectOf (nextId w))"
    using awaiting_bounds [OF assms] by simp
  show "awaiting d p a b (snd (call_cb (RejectOf (nextId w)) v w1))"
    by (rule awaiting_call_cb [OF 1 n])
qed

lemma awaiting_wrap_then:
  assumes "awaiting d p a b w" "d \<notin> cb_targets x" "d \<notin> cb_targets y"
  shows "awaiting d p a b
           (snd (promise_then (fst (static_resolve item w)) x y (snd (static_resolve item w))))"
  by (rule awaiting_promise_then [OF awaiting_static_resolve [OF assms(1)] assms(2,3)])

lemma awaiting_race_forEach:
  "awaiting d p a b w \<Longrightarrow> d \<noteq> agg \<Longrightarrow> awaiting d p a b (race_forEach agg items w)"
proof (induction items arbitrary: w)
  case (Cons item items)
  have "awaiting d p a b (snd (promise_then (fst (static_resolve item w))
          (ResolveOf agg) (RejectOf agg) (snd (static_resolve item w))))"
    using Cons.prems by (intro awaiting_wrap_then) simp_all
  from Cons.IH [OF this Cons.prems(2)] show ?case
    by (simp add: case_prod_beta)
qed simp

lemma awaiting_all_forEach:
  "awaiting d p a b w \<Longrightarrow> d \<noteq> agg \<Longrightarrow> awaiting d p a b (all_forEach vars len agg items index w)"
proof (induction items arbitrary: w index)
  case (Cons item items)
  have "awaiting d p a b (snd (promise_then (fst (static_resolve item w))
          (AllFulfilled vars index len agg) (AllRejected agg) (snd (static_resolve item w))))"
    using Cons.prems by (intro awaiting_wrap_then) simp_all
  from Cons.IH [OF this Cons.prems(2)] show ?case
    by (simp add: case_prod_beta)
qed simp

lemma awaiting_allSettled_map:
  "awaiting d p a b w \<Longrightarrow> awaiting d p a b (snd (allSettled_map items w))"
proof (induction items arbitrary: w)
  case (Cons item items)
  have "awaiting d p a b (snd (promise_then (fst (static_resolve item w))
          SettledFulfilled SettledRejected (snd (static_resolve item w))))"
    using Cons.prems by (intro awaiting_wrap_then) simp_all
  from Cons.IH [OF this] show ?case
    by (simp add: case_prod_beta)
qed simp

lemma awaiting_race:
  assumes "awaiting d p a b w"
  shows "awaiting d p a b (snd (race items w))"
  unfolding race_def
proof (rule awaiting_new_MyPromise [OF assms])
  fix w1 assume 1: "awaiting d p a b w1"
  have "d \<noteq> nextId w" using awaiting_bounds [OF assms] by simp
  then show "awaiting d p a b (snd (Return Undefined, race_forEach (nextId w) items w1))"
    using awaiting_race_forEach [OF 1] by simp
qed

lemma awaiting_promise_all:
  assumes "awaiting d p a b w"
  shows "awaiting d p a b (snd (promise_all items w))"
  unfolding promise_all_def Let_def
proof (rule awaiting_new_MyPromise)
  show "awaiting d p a b
          (w\<lparr>allVars := (allVars w)(nextVars w := \<lparr>fulfilledLength = 0, all_values = []\<rparr>),
             nextVars := nextVars w + 1\<rparr>)"
    using assms by simp
next
  fix w1 assume 1: "awaiting d p a b w1"
  have n: "d \<noteq> nextId w" using awaiting_bounds [OF assms] by simp
  show "awaiting d p a b (snd (if length items = 0
          then call_cb (ResolveOf (nextId
                 (w\<lparr>allVars := (allVars w)(nextVars w := \<lparr>fulfilledLength = 0, all_values = []\<rparr>),
                    nextVars := nextVars w + 1\<rparr>))) Undefined w1
          else (Return Undefined,
                all_forEach (nextVars w) (length items)
                  (nextId (w\<lparr>allVars := (allVars w)(nextVars w := \<lparr>fulfilledLength = 0, all_values = []\<rparr>),
                             nextVars := nextVars w + 1\<rparr>)) items 0 w1)))"
    using awaiting_inst_resolve [OF 1, of "nextId w"] awaiting_all_forEach [OF 1, of "nextId w"] n
    by simp
qed

lemma awaiting_allSettled:
  assumes "awaiting d p a b w"
  shows "awaiting d p a b (snd (allSettled items w))"
  using awaiting_promise_all [OF awaiting_allSettled_map [OF assms]]
  by (simp add: allSettled_def case_prod_beta)

lemma awaiting_run_executor:
  "awaiting d p a b w \<Longrightarrow> d \<noteq> this \<Longrightarrow> awaiting d p a b (snd (run_executor ex this w))"
proof (induction ex this w rule: run_executor.induct)
  case (2 v rest this w)
  then show ?case using awaiting_inst_resolve [of d p a b w this v] by simp
next
  case (3 v rest this w)
  then show ?case using awaiting_inst_reject [of d p a b w this v] by simp
qed simp_all

section \<open>Running the tasks of the two handlers\<close>

text \<open>The idle record is skipped: its task changes nothing.\<close>

lemma run_idle:
  "state (heap w p) \<noteq> PENDING \<Longrightarrow>
   run_task (Task p (idle_record a b d (state (heap w p)))) w = w"
  by (cases "state (heap w p)") (simp_all add: run_task_def idle_record_def then_record_def)

text \<open>The task of the due record gives \<open>d\<close> the expected outcome.\<close>

lemma run_due:
  assumes s: "state (heap w p) \<noteq> PENDING" and d: "state (heap w d) = PENDING" and ne: "d \<noteq> p"
      and e: "expected (if state (heap w p) = FULFILLED then a else b)
                (state (heap w p)) (result (heap w p)) = Some (st, r)"
  shows "state (heap (run_task (Task p (due_record a b d (state (heap w p)))) w) d) = st
       \<and> result (heap (run_task (Task p (due_record a b d (state (heap w p)))) w) d) = r"
proof -
  let ?c = "if state (heap w p) = FULFILLED then a else b"
  let ?h = "due_record a b d (state (heap w p))"
  have h: "executor ?h = ?c" "hstate ?h = state (heap w p)" "resolve ?h = ResolveOf d"
      "reject ?h = RejectOf d"
    using s by (cases "state (heap w p)"; simp add: due_record_def then_record_def)+
  show ?thesis
  proof (cases "is_function ?c")
    case False
    then have "st = state (heap w p)" "r = result (heap w p)"
      using e by (simp_all add: expected_def)
    then show ?thesis
      using False h s d ne
      by (cases "state (heap w p)")
         (simp_all add: run_task_def inst_resolve_eq inst_reject_eq)
  next
    case True
    then obtain res where pc: "pure_call ?c (result (heap w p)) = Some res"
      using e by (auto simp: expected_def split: option.splits)
    have cc: "call_cb ?c (result (heap w p)) w = (res, w)"
      by (rule pure_call_world [OF pc])
    show ?thesis
    proof (cases res)
      case (Throw err)
      then have "st = REJECTED" "r = err"
        using e True pc by (simp_all add: expected_def)
      then show ?thesis
        using True h cc Throw d
        by (simp add: run_task_def inst_reject_eq)
    next
      case (Return x)
      then have x: "\<not> isPromise x" "st = FULFILLED" "r = x"
        using e True pc by (auto simp: expected_def split: if_splits)
      then show ?thesis
        using True h cc Return d
        by (simp add: run_task_def inst_resolve_eq)
    qed
  qed
qed

lemma tick_finished:
  assumes "finished d p a b w" "d < nextId w" "p < nextId w"
  shows "finished d p a b (tick w)"
  by (rule finished_step [OF assms(1) tick_grows assms(2,3)])

lemma pop_heap_quiet [simp]: "heap_quiet d (w\<lparr>microQueue := ts\<rparr>) = heap_quiet d w"
  by (simp add: heap_quiet_def)

lemma pop_grows: "grows w (w\<lparr>microQueue := ts\<rparr>)"
  by (simp add: grows_def)

text \<open>One run of the host keeps the two records tracked.\<close>

lemma tick_tracked:
  assumes "tracked d p a b w"
  shows "tracked d p a b (tick w)"
proof -
  have b: "d < nextId w" "p < nextId w" "d \<noteq> p"
    and c: "waiting d p a b w \<or> scheduled d p a b w \<or> finished d p a b w"
    using assms by (simp_all add: tracked_def)
  have n: "nextId w \<le> nextId (tick w)" using tick_grows [of w] by (simp add: grows_def)
  have "waiting d p a b (tick w) \<or> scheduled d p a b (tick w) \<or> finished d p a b (tick w)"
  proof (cases "microQueue w")
    case Nil
    then show ?thesis using c by (simp add: tick_def)
  next
    case (Cons t ts)
    let ?w0 = "w\<lparr>microQueue := ts\<rparr>"
    have tk: "tick w = run_task t ?w0" using Cons by (simp add: tick_def)
    from c show ?thesis
    proof (elim disjE)
      assume f: "finished d p a b w"
      show ?thesis using tick_finished [OF f b(1,2)] by simp
    next
      assume wt: "waiting d p a b w"
      then have t: "d \<notin> task_targets t" and w0: "waiting d p a b ?w0"
        using Cons by (auto simp: waiting_def queue_quiet_def)
      have "awaiting d p a b ?w0" using w0 b by (simp add: awaiting_def)
      from awaiting_run_task [OF this t] show ?thesis
        using tk by (auto simp: awaiting_def)
    next
      assume sc: "scheduled d p a b w"
      then obtain ts1 ts2 where
        s: "state (heap w p) \<noteq> PENDING" "heap_quiet d w"
           "microQueue w = ts1 @ Task p (due_record a b d (state (heap w p))) # ts2"
           "\<forall>t \<in> set ts1 \<union> set ts2. d \<in> task_targets t \<longrightarrow>
               t = Task p (idle_record a b d (state (heap w p)))"
        by (auto simp: scheduled_def)
      show ?thesis
      proof (cases ts1)
        case Nil
        then have t: "t = Task p (due_record a b d (state (heap w p)))"
          using s(3) Cons by simp
        have s0: "state (heap ?w0 p) \<noteq> PENDING" "state (heap ?w0 d) = PENDING"
          using s(1,2) by (simp_all add: heap_quiet_def)
        have g: "grows ?w0 (tick w)" unfolding tk by (rule run_task_grows)
        have same: "state (heap (tick w) p) = state (heap w p)"
                   "result (heap (tick w) p) = result (heap w p)"
          using g s(1) b(2) by (simp_all add: grows_def)
        {
          fix st r
          assume "expected (if state (heap w p) = FULFILLED then a else b)
                    (state (heap w p)) (result (heap w p)) = Some (st, r)"
          then have "state (heap (tick w) d) = st \<and> result (heap (tick w) d) = r"
            using run_due [of ?w0 p d a b st r] s0 b(3) tk t by simp
        }
        then have "finished d p a b (tick w)"
          using s(1) same by (simp add: finished_def)
        then show ?thesis by simp
      next
        case (Cons t' ts1')
        then have t: "t = t'" and q: "ts = ts1' @ Task p (due_record a b d (state (heap w p))) # ts2"
          using s(3) \<open>microQueue w = t # ts\<close> by simp_all
        have sc0: "scheduled d p a b ?w0"
          using s(1,2,4) q Cons
          by (intro scheduledI [where ?ts1.0 = ts1' and ?ts2.0 = ts2]) simp_all
        show ?thesis
        proof (cases "d \<in> task_targets t")
          case True
          then have "t = Task p (idle_record a b d (state (heap w p)))"
            using s(4) t Cons by simp
          then have "tick w = ?w0"
            using tk run_idle [of ?w0 p a b d] s(1) by simp
          then show ?thesis using sc0 by simp
        next
          case False
          have "scheduled d p a b (run_task t ?w0)"
            using b by (intro scheduled_step [OF sc0 run_task_grows run_task_shields [OF False]]) simp_all
          then show ?thesis using tk by simp
        qed
      qed
    qed
  qed
  then show ?thesis using b n by (simp add: tracked_def)
qed

section \<open>The two handlers under a client program\<close>

lemma tracked_step:
  assumes "tracked d p a b w" "grows w w'" "awaiting d p a b w \<Longrightarrow> awaiting d p a b w'"
  shows "tracked d p a b w'"
proof -
  have b: "d < nextId w" "p < nextId w" "d \<noteq> p"
    and c: "waiting d p a b w \<or> scheduled d p a b w \<or> finished d p a b w"
    using assms(1) by (simp_all add: tracked_def)
  have n: "nextId w \<le> nextId w'" using assms(2) by (simp add: grows_def)
  show ?thesis
  proof (cases "finished d p a b w")
    case True
    then show ?thesis
      using finished_step [OF True assms(2) b(1,2)] b n by (simp add: tracked_def)
  next
    case False
    then have "awaiting d p a b w" using b c by (simp add: awaiting_def)
    then have "awaiting d p a b w'" by (rule assms(3))
    then show ?thesis by (auto simp: awaiting_def tracked_def)
  qed
qed

lemma awaiting_perform:
  assumes "awaiting d p a b (cworld c)" "d \<notin> set (held c)" "act \<noteq> Tick"
  shows "awaiting d p a b (cworld (perform act c))"
proof (cases act)
  case (New ex)
  have "awaiting d p a b (snd (new_MyPromise (run_executor ex) (cworld c)))"
  proof (rule awaiting_new_MyPromise [OF assms(1)])
    fix w1 assume "awaiting d p a b w1"
    then show "awaiting d p a b (snd (run_executor ex (nextId (cworld c)) w1))"
      using awaiting_bounds [OF assms(1)] by (intro awaiting_run_executor) simp_all
  qed
  then show ?thesis using New by (simp add: case_prod_beta)
next
  case (Then q f g)
  then show ?thesis
    using assms(1) awaiting_promise_then [OF assms(1), of "Arg f" "Arg g" q] by simp
next
  case (Catch q g)
  then show ?thesis
    using assms(1) awaiting_promise_then [OF assms(1), of "Arg NotAFunction" "Arg g" q]
    by (simp add: promise_catch_def)
next
  case (Finally q f)
  then show ?thesis
    using assms(1) awaiting_promise_then [OF assms(1), of "FinallyFulfilled f" "FinallyRejected f" q]
    by (simp add: promise_finally_def)
next
  case (CallResolve q v)
  then show ?thesis
    using assms(1,2) awaiting_inst_resolve [OF assms(1), of q v] by auto
next
  case (CallReject q v)
  then show ?thesis
    using assms(1,2) awaiting_inst_reject [OF assms(1), of q v] by auto
qed (use assms in \<open>simp_all add: awaiting_static_resolve awaiting_static_reject
       awaiting_promise_all awaiting_allSettled awaiting_race\<close>)

lemma perform_tracked:
  assumes "tracked d p a b (cworld c)" "d \<notin> set (held c)"
  shows "tracked d p a b (cworld (perform act c)) \<and> d \<notin> set (held (perform act c))"
proof -
  have "d < nextId (cworld c)" using assms(1) by (simp add: tracked_def)
  then have h: "d \<notin> set (held (perform act c))"
    using perform_held [of act c] assms(2) by auto
  have "tracked d p a b (cworld (perform act c))"
  proof (cases "act = Tick")
    case True
    then show ?thesis using tick_tracked [OF assms(1)] by simp
  next
    case False
    show ?thesis
      by (rule tracked_step [OF assms(1) perform_grows])
         (rule awaiting_perform [OF _ assms(2) False])
  qed
  with h show ?thesis by simp
qed

lemma run_tracked:
  "tracked d p a b (cworld c) \<Longrightarrow> d \<notin> set (held c) \<Longrightarrow> tracked d p a b (cworld (run prog c))"
proof (induction prog arbitrary: c)
  case (Cons act prog)
  from perform_tracked [OF Cons.prems, of act] Cons.IH [of "perform act c"]
  show ?case by simp
qed simp

text \<open>\<open>then\<close> on an existing instance of a world in which the next address is quiet.\<close>

lemma attached_tracked:
  assumes q: "quiet (nextId w) w" and p: "p < nextId w"
  shows "tracked (nextId w) p a b (snd (promise_then p a b w))"
proof -
  let ?d = "nextId w"
  let ?H1 = "then_record a FULFILLED ?d" and ?H2 = "then_record b REJECTED ?d"
  let ?w1 = "snd (promise_then p a b w)"
  have hq: "\<forall>q. \<forall>h \<in> set (handlerQueue (heap w q)). ?d \<notin> h_targets h"
    and mq: "queue_quiet ?d (microQueue w)"
    using q by (simp_all add: quiet_def heap_quiet_def)
  have "waiting ?d p a b ?w1 \<or> scheduled ?d p a b ?w1"
  proof (cases "state (heap w p) = PENDING")
    case True
    have 1: "handlerQueue (heap ?w1 p) = handlerQueue (heap w p) @ ?H1 # ?H2 # []"
      using True p
      by (simp add: promise_then_eq pushHandler_def executeHandlers_eq fresh_promise_def
            then_record_def)
    have 2: "\<forall>h \<in> set (handlerQueue (heap w p)) \<union> set []. ?d \<notin> h_targets h"
      using hq by simp
    have 3: "\<forall>q. q \<noteq> p \<longrightarrow> (\<forall>h \<in> set (handlerQueue (heap ?w1 q)). ?d \<notin> h_targets h)"
      using True p hq
      by (auto simp: promise_then_eq pushHandler_def executeHandlers_eq fresh_promise_def)
    have 4: "state (heap ?w1 p) = PENDING" "state (heap ?w1 ?d) = PENDING"
            "queue_quiet ?d (microQueue ?w1)"
      using True p mq
      by (simp_all add: promise_then_eq pushHandler_def executeHandlers_eq fresh_promise_def)
    have "waiting ?d p a b ?w1"
      unfolding waiting_def using 1 2 3 4 by blast
    then show ?thesis by simp
  next
    case False
    let ?ts = "microQueue w @ map (Task p) (handlerQueue (heap w p))"
    have st: "state (heap ?w1 p) = state (heap w p)"
      using False p
      by (simp add: promise_then_eq pushHandler_def executeHandlers_eq fresh_promise_def)
    have m: "microQueue ?w1 = ?ts @ [Task p ?H1, Task p ?H2]"
      using False p
      by (simp add: promise_then_eq pushHandler_def executeHandlers_eq fresh_promise_def
            then_record_def)
    have f: "\<forall>t \<in> set ?ts. ?d \<notin> task_targets t"
      using hq mq by (auto simp: queue_quiet_def)
    have h1: "heap_quiet ?d ?w1"
      using False p hq
      by (auto simp: promise_then_eq pushHandler_def executeHandlers_eq fresh_promise_def
            heap_quiet_def)
    have "scheduled ?d p a b ?w1"
    proof (cases "state (heap w p) = FULFILLED")
      case True
      show ?thesis
        using False st m f h1 True
        by (intro scheduledI [where ?ts1.0 = ?ts and ?ts2.0 = "[Task p ?H2]"])
           (simp_all add: due_record_def idle_record_def)
    next
      case F: False
      show ?thesis
        using False st m f h1 F
        by (intro scheduledI [where ?ts1.0 = "?ts @ [Task p ?H1]" and ?ts2.0 = "[]"])
           (simp_all add: due_record_def idle_record_def)
    qed
    then show ?thesis by simp
  qed
  moreover have "nextId ?w1 = nextId w + 1"
    by (simp add: promise_then_eq pushHandler_def executeHandlers_eq)
  ultimately show ?thesis using p by (auto simp: tracked_def)
qed

section \<open>The outcome of the downstream instance\<close>

lemma ticks_grows: "grows w (ticks n w)"
proof (induction n arbitrary: w)
  case (Suc n)
  show ?case using grows_trans [OF tick_grows Suc [of "tick w"]] by simp
qed simp

lemma tracked_now:
  assumes "tracked d p a b w" "state (heap w p) \<noteq> PENDING"
      and "expected (if state (heap w p) = FULFILLED then a else b)
             (state (heap w p)) (result (heap w p)) = Some (st, r)"
  shows "state (heap w d) = PENDING \<or> state (heap w d) = st \<and> result (heap w d) = r"
  using assms by (auto simp: tracked_def waiting_def scheduled_def heap_quiet_def finished_def)

text \<open>
  With the due record at position \<open>length ts1\<close> of the host's queue, behind tasks that
  are idle or cannot settle \<open>d\<close>, that many runs and one more give \<open>d\<close> its outcome.
\<close>

lemma scheduled_ticks:
  assumes "heap_quiet d w" "state (heap w p) \<noteq> PENDING" "d < nextId w" "p < nextId w" "d \<noteq> p"
      and "microQueue w = ts1 @ Task p (due_record a b d (state (heap w p))) # ts2"
      and "\<forall>t \<in> set ts1. d \<in> task_targets t \<longrightarrow>
             t = Task p (idle_record a b d (state (heap w p)))"
      and "expected (if state (heap w p) = FULFILLED then a else b)
             (state (heap w p)) (result (heap w p)) = Some (st, r)"
  shows "state (heap (ticks (Suc (length ts1)) w) d) = st
       \<and> result (heap (ticks (Suc (length ts1)) w) d) = r"
  using assms
proof (induction ts1 arbitrary: w ts2)
  case Nil
  let ?w0 = "w\<lparr>microQueue := ts2\<rparr>"
  have tk: "tick w = run_task (Task p (due_record a b d (state (heap w p)))) ?w0"
    using Nil.prems(6) by (simp add: tick_def)
  have "state (heap ?w0 d) = PENDING" using Nil.prems(1) by (simp add: heap_quiet_def)
  then show ?case
    using run_due [of ?w0 p d a b st r] Nil.prems(2,5,8) tk by simp
next
  case (Cons t ts1)
  let ?w0 = "w\<lparr>microQueue := ts1 @ Task p (due_record a b d (state (heap w p))) # ts2\<rparr>"
  have tk: "tick w = run_task t ?w0" using Cons.prems(6) by (simp add: tick_def)
  have goal: "state (heap (ticks (Suc (length ts1)) (tick w)) d) = st
            \<and> result (heap (ticks (Suc (length ts1)) (tick w)) d) = r"
  proof (cases "d \<in> task_targets t")
    case True
    then have "t = Task p (idle_record a b d (state (heap w p)))"
      using Cons.prems(7) by simp
    then have e: "tick w = ?w0"
      using tk run_idle [of ?w0 p a b d] Cons.prems(2) by simp
    show ?thesis
      unfolding e
      using Cons.prems
      by (intro Cons.IH [where ?ts2.0 = ts2]) (simp_all add: heap_quiet_def)
  next
    case False
    have g: "grows ?w0 (tick w)" unfolding tk by (rule run_task_grows)
    have "shields d ?w0 (tick w)" unfolding tk by (rule run_task_shields [OF False])
    then obtain new where
      n: "heap_quiet d (tick w)"
         "microQueue (tick w) =
            (ts1 @ Task p (due_record a b d (state (heap w p))) # ts2) @ new"
      using Cons.prems(1,3) by (auto simp: shields_def heap_quiet_def)
    have same: "state (heap (tick w) p) = state (heap w p)"
               "result (heap (tick w) p) = result (heap w p)"
      using g Cons.prems(2,4) by (simp_all add: grows_def)
    have b: "d < nextId (tick w)" "p < nextId (tick w)"
      using g Cons.prems(3,4) by (simp_all add: grows_def)
    show ?thesis
      using n same b Cons.prems(2,5,7,8)
      by (intro Cons.IH [where ?ts2.0 = "ts2 @ new"]) simp_all
  qed
  then show ?case by simp
qed

lemma tracked_drain:
  assumes "tracked d p a b w" "state (heap w p) \<noteq> PENDING"
      and e: "expected (if state (heap w p) = FULFILLED then a else b)
             (state (heap w p)) (result (heap w p)) = Some (st, r)"
  shows "state (heap (ticks (length (microQueue w)) w) d) = st
       \<and> result (heap (ticks (length (microQueue w)) w) d) = r"
proof -
  have b: "d < nextId w" "p < nextId w" "d \<noteq> p"
    and c: "scheduled d p a b w \<or> finished d p a b w"
    using assms(1,2) by (auto simp: tracked_def waiting_def)
  have sp: "st \<noteq> PENDING" by (rule expected_settled [OF e assms(2)])
  from c show ?thesis
  proof
    assume "finished d p a b w"
    then have "state (heap w d) = st \<and> result (heap w d) = r"
      using e by (simp add: finished_def)
    then show ?thesis
      using ticks_grows [of w "length (microQueue w)"] sp b(1) by (simp add: grows_def)
  next
    assume "scheduled d p a b w"
    then obtain ts1 ts2 where
      s: "heap_quiet d w"
         "microQueue w = ts1 @ Task p (due_record a b d (state (heap w p))) # ts2"
         "\<forall>t \<in> set ts1 \<union> set ts2. d \<in> task_targets t \<longrightarrow>
             t = Task p (idle_record a b d (state (heap w p)))"
      by (auto simp: scheduled_def)
    let ?y = "ticks (Suc (length ts1)) w"
    have y: "state (heap ?y d) = st \<and> result (heap ?y d) = r"
      using s(3) by (intro scheduled_ticks [OF s(1) assms(2) b s(2) _ e]) simp
    have "d < nextId ?y" using ticks_grows [of w "Suc (length ts1)"] b(1) by (simp add: grows_def)
    then have "state (heap (ticks (length ts2) ?y) d) = st \<and> result (heap (ticks (length ts2) ?y) d) = r"
      using ticks_grows [of ?y "length ts2"] y sp by (simp add: grows_def)
    moreover have "length (microQueue w) = Suc (length ts1) + length ts2"
      using s(2) by simp
    ultimately show ?thesis by (simp only: ticks_add)
  qed
qed

text \<open>
  The outcome of the instance \<open>d\<close> that \<open>then\<close> returns, in any world a client program
  reaches, under any client program that follows the call: once the source is settled and
  the record that is due has an expected outcome, \<open>d\<close> is pending or has that outcome, and
  has it when the tasks scheduled so far have run.
\<close>

lemma downstream_outcome:
  assumes "w = cworld (run before init_client)" and "p < nextId w"
      and "promise_then p a b w = (d, w1)"
      and "w2 = cworld (run after ((run before init_client)\<lparr>cworld := w1\<rparr>))"
      and "state (heap w2 p) \<noteq> PENDING"
      and "expected (if state (heap w2 p) = FULFILLED then a else b)
             (state (heap w2 p)) (result (heap w2 p)) = Some (st, r)"
  shows "d = nextId w \<and> state (heap w1 d) = PENDING
       \<and> (state (heap w2 d) = PENDING \<or> state (heap w2 d) = st \<and> result (heap w2 d) = r)
       \<and> state (heap (ticks (length (microQueue w2)) w2) d) = st
       \<and> result (heap (ticks (length (microQueue w2)) w2) d) = r"
proof -
  let ?c0 = "run before init_client"
  have sl: "sealed (nextId w) ?c0"
    using assms(1) reachable_unused_sealed [of before "nextId w"] by simp
  have d: "d = nextId w" and w1: "w1 = snd (promise_then p a b w)"
    using assms(3) promise_then_fst [of p a b w] by simp_all
  have pend: "state (heap w1 d) = PENDING"
    using assms(2) unfolding w1 d
    by (simp add: promise_then_eq pushHandler_def executeHandlers_eq fresh_promise_def)
  have t1: "tracked d p a b (cworld (?c0\<lparr>cworld := w1\<rparr>))"
    using attached_tracked [of w p a b] sl assms(1,2) d w1 by (simp add: sealed_def)
  have "d \<notin> set (held (?c0\<lparr>cworld := w1\<rparr>))"
    using sl d by (simp add: sealed_def)
  from run_tracked [OF t1 this, of after] have t2: "tracked d p a b w2"
    using assms(4) by simp
  show ?thesis
    using d pend tracked_now [OF t2 assms(5,6)] tracked_drain [OF t2 assms(5,6)] by simp
qed

section \<open>Continuations that raise, and \<open>finally\<close>\<close>

text \<open>
  Claim C5. In any world a client program reaches, \<open>then\<close> returns the new instance
  \<open>d\<close>, pending, to its caller: nothing is raised there. Take any client program that runs
  after the call (more operations, calls of held \<open>resolve\<close>/\<open>reject\<close> functions, scheduled
  tasks run by the host), so that the source may be settled before the call, by the client,
  or by a scheduled task of an earlier link of a chain. When the source is settled and the
  continuation for its state is a client function that throws \<open>e\<close> on the source's result,
  \<open>d\<close> is either still pending or rejected with \<open>e\<close>, and it is rejected with \<open>e\<close> once the
  tasks scheduled so far have run.
\<close>

theorem raising_continuation_rejects_downstream:
  assumes "w = cworld (run before init_client)" and "p < nextId w"
      and "promise_then p onfulfilled onrejected w = (d, w1)"
      and "w2 = cworld (run after ((run before init_client)\<lparr>cworld := w1\<rparr>))"
      and "state (heap w2 p) = FULFILLED \<and> onfulfilled = Arg (UserFn f)
         \<or> state (heap w2 p) = REJECTED \<and> onrejected = Arg (UserFn f)"
      and "f (result (heap w2 p)) = Throw e"
  shows "d = nextId w \<and> state (heap w1 d) = PENDING
       \<and> (state (heap w2 d) = PENDING
          \<or> state (heap w2 d) = REJECTED \<and> result (heap w2 d) = e)
       \<and> state (heap (ticks (length (microQueue w2)) w2) d) = REJECTED
       \<and> result (heap (ticks (length (microQueue w2)) w2) d) = e"
proof -
  have s: "state (heap w2 p) \<noteq> PENDING" using assms(5) by auto
  have "expected (if state (heap w2 p) = FULFILLED then onfulfilled else onrejected)
          (state (heap w2 p)) (result (heap w2 p)) = Some (REJECTED, e)"
    using assms(5,6) by (auto simp: expected_def)
  from downstream_outcome [OF assms(1-4) s this] show ?thesis .
qed

theorem raising_continuation_rejects_downstream_witness:
  "state (heap (cworld (run [New [XResolve (Num 1)], Then 0 (UserFn (\<lambda>v. Return v)) NotAFunction]
       init_client)) 1) = PENDING
   \<and> state (heap (cworld (run [Tick, Tick]
       ((run [New [XResolve (Num 1)], Then 0 (UserFn (\<lambda>v. Return v)) NotAFunction] init_client)
        \<lparr>cworld := snd (promise_then 1 (Arg (UserFn (\<lambda>v. Throw (Str ''boom'')))) (Arg NotAFunction)
           (cworld (run [New [XResolve (Num 1)], Then 0 (UserFn (\<lambda>v. Return v)) NotAFunction]
              init_client)))\<rparr>))) 1) = FULFILLED
   \<and> state (heap (ticks 2 (cworld (run [Tick, Tick]
       ((run [New [XResolve (Num 1)], Then 0 (UserFn (\<lambda>v. Return v)) NotAFunction] init_client)
        \<lparr>cworld := snd (promise_then 1 (Arg (UserFn (\<lambda>v. Throw (Str ''boom'')))) (Arg NotAFunction)
           (cworld (run [New [XResolve (Num 1)], Then 0 (UserFn (\<lambda>v. Return v)) NotAFunction]
              init_client)))\<rparr>)))) 2) = REJECTED
   \<and> result (heap (ticks 2 (cworld (run [Tick, Tick]
       ((run [New [XResolve (Num 1)], Then 0 (UserFn (\<lambda>v. Return v)) NotAFunction] init_client)
        \<lparr>cworld := snd (promise_then 1 (Arg (UserFn (\<lambda>v. Throw (Str ''boom'')))) (Arg NotAFunction)
           (cworld (run [New [XResolve (Num 1)], Then 0 (UserFn (\<lambda>v. Return v)) NotAFunction]
              init_client)))\<rparr>)))) 2) = Str ''boom''"
proof -
  let ?f = "\<lambda>v::jsval. (Throw (Str ''boom'') :: jsval completion)"
  let ?c0 = "run [New [XResolve (Num 1)], Then 0 (UserFn (\<lambda>v. Return v)) NotAFunction] init_client"
  let ?w = "cworld ?c0"
  let ?w1 = "snd (promise_then 1 (Arg (UserFn ?f)) (Arg NotAFunction) ?w)"
  let ?w2 = "cworld (run [Tick, Tick] (?c0\<lparr>cworld := ?w1\<rparr>))"
  have n: "nextId ?w = 2" by code_simp
  have a: "1 < nextId ?w" using n by simp
  have c: "promise_then 1 (Arg (UserFn ?f)) (Arg NotAFunction) ?w = (2, ?w1)"
    using promise_then_fst [of 1 "Arg (UserFn ?f)" "Arg NotAFunction" ?w] n
    by (simp add: prod_eq_iff)
  have p0: "state (heap ?w 1) = PENDING" by code_simp
  have p2: "state (heap ?w2 1) = FULFILLED" by code_simp
  have s: "state (heap ?w2 1) = FULFILLED \<and> Arg (UserFn ?f) = Arg (UserFn ?f)
         \<or> state (heap ?w2 1) = REJECTED \<and> Arg NotAFunction = Arg (UserFn ?f)"
    using p2 by simp
  have t: "?f (result (heap ?w2 1)) = Throw (Str ''boom'')" by simp
  have l: "length (microQueue ?w2) = 2" by code_simp
  have "state (heap (ticks (length (microQueue ?w2)) ?w2) 2) = REJECTED
      \<and> result (heap (ticks (length (microQueue ?w2)) ?w2) 2) = Str ''boom''"
    using raising_continuation_rejects_downstream [OF refl a c refl s t] by blast
  then show ?thesis using p0 p2 by (simp only: l)
qed


text \<open>
  Claim C9, as stated: on fulfilment \<open>finally\<close> passes the original value through. It
  does not when the original value is itself promise-like: with \<open>q = MyPromise.reject('no')\<close>
  and \<open>p = new MyPromise(resolve => resolve(q))\<close>, \<open>p\<close> is fulfilled with \<open>q\<close>, and the
  instance returned by \<open>p.finally(() => 0)\<close> ends rejected with \<open>'no'\<close>, not fulfilled
  with \<open>q\<close>: the closure returns \<open>q\<close>, and the task adopts a returned value that passes
  \<open>isPromise\<close>.
\<close>

theorem finally_promise_like_value_counterexample:
  "state (heap (cworld (run [StaticReject (Str ''no''), New [XResolve (Inst 0)]] init_client)) 1)
     = FULFILLED
   \<and> result (heap (cworld (run [StaticReject (Str ''no''), New [XResolve (Inst 0)]] init_client)) 1)
     = Inst 0
   \<and> fst (promise_finally 1 (UserFn (\<lambda>u. Return (Num 0)))
        (cworld (run [StaticReject (Str ''no''), New [XResolve (Inst 0)]] init_client))) = 2
   \<and> state (heap (ticks 4 (snd (promise_finally 1 (UserFn (\<lambda>u. Return (Num 0)))
        (cworld (run [StaticReject (Str ''no''), New [XResolve (Inst 0)]] init_client))))) 2)
     = REJECTED
   \<and> result (heap (ticks 4 (snd (promise_finally 1 (UserFn (\<lambda>u. Return (Num 0)))
        (cworld (run [StaticReject (Str ''no''), New [XResolve (Inst 0)]] init_client))))) 2)
     = Str ''no''
   \<and> microQueue (ticks 4 (snd (promise_finally 1 (UserFn (\<lambda>u. Return (Num 0)))
        (cworld (run [StaticReject (Str ''no''), New [XResolve (Inst 0)]] init_client))))) = []"
  by code_simp

text \<open>
  Claim C9, amended. Let \<open>onfinally\<close> return normally, with any value \<open>x\<close> (a pending
  instance included). The two closures of \<open>finally\<close> drop \<open>x\<close>: the first returns the value
  it was given, the second throws the reason it was given. So, in any world a client
  program reaches and under any client program that follows the call of \<open>finally\<close>: when
  the source is rejected, or fulfilled with a value that is not promise-like, the instance
  returned by \<open>finally\<close> is either still pending or has the source's state and result, and
  it has them once the tasks scheduled so far have run. It does not wait for \<open>x\<close>.
\<close>

theorem finally_discards_onfinally_result:
  assumes "w = cworld (run before init_client)" and "p < nextId w"
      and "f Undefined = Return x"
      and "promise_finally p (UserFn f) w = (d, w1)"
      and "w2 = cworld (run after ((run before init_client)\<lparr>cworld := w1\<rparr>))"
      and "state (heap w2 p) = REJECTED
         \<or> state (heap w2 p) = FULFILLED \<and> \<not> isPromise (result (heap w2 p))"
  shows "call_cb (FinallyFulfilled (UserFn f)) v w' = (Return v, w')
       \<and> call_cb (FinallyRejected (UserFn f)) v w' = (Throw v, w')
       \<and> (state (heap w2 d) = PENDING
          \<or> state (heap w2 d) = state (heap w2 p) \<and> result (heap w2 d) = result (heap w2 p))
       \<and> state (heap (ticks (length (microQueue w2)) w2) d) = state (heap w2 p)
       \<and> result (heap (ticks (length (microQueue w2)) w2) d) = result (heap w2 p)"
proof -
  let ?a = "FinallyFulfilled (UserFn f)" and ?b = "FinallyRejected (UserFn f)"
  have t: "promise_then p ?a ?b w = (d, w1)"
    using assms(4) by (simp add: promise_finally_def)
  have s: "state (heap w2 p) \<noteq> PENDING" using assms(6) by auto
  have "expected (if state (heap w2 p) = FULFILLED then ?a else ?b)
          (state (heap w2 p)) (result (heap w2 p)) = Some (state (heap w2 p), result (heap w2 p))"
    using assms(3,6) by (auto simp: expected_def)
  from downstream_outcome [OF assms(1,2) t assms(5) s this]
  have "(state (heap w2 d) = PENDING
          \<or> state (heap w2 d) = state (heap w2 p) \<and> result (heap w2 d) = result (heap w2 p))
       \<and> state (heap (ticks (length (microQueue w2)) w2) d) = state (heap w2 p)
       \<and> result (heap (ticks (length (microQueue w2)) w2) d) = result (heap w2 p)"
    by blast
  moreover have "call_cb ?a v w' = (Return v, w')" "call_cb ?b v w' = (Throw v, w')"
    using assms(3) by simp_all
  ultimately show ?thesis by blast
qed

theorem finally_discards_onfinally_result_witness:
  "state (heap (cworld (run [Tick, Tick]
       ((run [New [], New [XReject (Str ''no'')], Then 1 NotAFunction NotAFunction] init_client)
        \<lparr>cworld := snd (promise_finally 2 (UserFn (\<lambda>u. Return (Inst 0)))
           (cworld (run [New [], New [XReject (Str ''no'')], Then 1 NotAFunction NotAFunction]
              init_client)))\<rparr>))) 0) = PENDING
   \<and> state (heap (cworld (run [Tick, Tick]
       ((run [New [], New [XReject (Str ''no'')], Then 1 NotAFunction NotAFunction] init_client)
        \<lparr>cworld := snd (promise_finally 2 (UserFn (\<lambda>u. Return (Inst 0)))
           (cworld (run [New [], New [XReject (Str ''no'')], Then 1 NotAFunction NotAFunction]
              init_client)))\<rparr>))) 2) = REJECTED
   \<and> state (heap (ticks 2 (cworld (run [Tick, Tick]
       ((run [New [], New [XReject (Str ''no'')], Then 1 NotAFunction NotAFunction] init_client)
        \<lparr>cworld := snd (promise_finally 2 (UserFn (\<lambda>u. Return (Inst 0)))
           (cworld (run [New [], New [XReject (Str ''no'')], Then 1 NotAFunction NotAFunction]
              init_client)))\<rparr>)))) 3) = REJECTED
   \<and> result (heap (ticks 2 (cworld (run [Tick, Tick]
       ((run [New [], New [XReject (Str ''no'')], Then 1 NotAFunction NotAFunction] init_client)
        \<lparr>cworld := snd (promise_finally 2 (UserFn (\<lambda>u. Return (Inst 0)))
           (cworld (run [New [], New [XReject (Str ''no'')], Then 1 NotAFunction NotAFunction]
              init_client)))\<rparr>)))) 3) = Str ''no''"
proof -
  let ?f = "\<lambda>u::jsval. Return (Inst 0)"
  let ?c0 = "run [New [], New [XReject (Str ''no'')], Then 1 NotAFunction NotAFunction] init_client"
  let ?w = "cworld ?c0"
  let ?w1 = "snd (promise_finally 2 (UserFn ?f) ?w)"
  let ?w2 = "cworld (run [Tick, Tick] (?c0\<lparr>cworld := ?w1\<rparr>))"
  have n: "nextId ?w = 3" by code_simp
  have a: "2 < nextId ?w" using n by simp
  have b: "?f Undefined = Return (Inst 0)" by simp
  have c: "promise_finally 2 (UserFn ?f) ?w = (3, ?w1)"
    using promise_then_fst [of 2 "FinallyFulfilled (UserFn ?f)" "FinallyRejected (UserFn ?f)" ?w] n
    by (simp add: prod_eq_iff promise_finally_def)
  have p2: "state (heap ?w2 2) = REJECTED" "result (heap ?w2 2) = Str ''no''"
    by code_simp+
  have q0: "state (heap ?w2 0) = PENDING" by code_simp
  have s: "state (heap ?w2 2) = REJECTED
         \<or> state (heap ?w2 2) = FULFILLED \<and> \<not> isPromise (result (heap ?w2 2))"
    using p2 by simp
  have l: "length (microQueue ?w2) = 2" by code_simp
  have "state (heap (ticks (length (microQueue ?w2)) ?w2) 3) = state (heap ?w2 2)
      \<and> result (heap (ticks (length (microQueue ?w2)) ?w2) 3) = result (heap ?w2 2)"
    using finally_discards_onfinally_result [OF refl a b c refl s] by blast
  then show ?thesis using q0 p2 by (simp only: l)
qed

end
